theory Spec2Isabelle
  imports Main "HOL-Library.Word" "HOL-Library.Monad_Syntax"
begin

unbundle bit_operations_syntax

section \<open>The ipdbg-la protocol engine (src/hardware/ipdbg-la/protocol.c)\<close>

text \<open>
  A shallow embedding of the protocol functions of the IPDBG logic analyser driver.
  C integers are words of their width (\<open>uint8_t\<close> is \<open>8 word\<close>, \<open>uint32_t\<close> is
  \<open>32 word\<close>, \<open>uint64_t\<close> is \<open>64 word\<close>), arrays are lists, a \<open>NULL\<close> pointer is
  \<open>None\<close>. An access outside an array and a shift the C standard leaves undefined make
  the model return \<open>None\<close>. The socket is a record: what the driver hands to
  \<open>send\<close> is appended to \<open>tx\<close>, what the peer delivers is scripted in \<open>rx\<close>.
\<close>

type_synonym u8 = "8 word"
type_synonym u16 = "16 word"
type_synonym u32 = "32 word"
type_synonym u64 = "64 word"

subsection \<open>Opcodes\<close>

definition CMD_SET_TRIGGER :: u8 where "CMD_SET_TRIGGER = 0x00"
definition CMD_CFG_TRIGGER :: u8 where "CMD_CFG_TRIGGER = 0xF0"
definition CMD_CFG_LA :: u8 where "CMD_CFG_LA = 0x0F"
definition CMD_START :: u8 where "CMD_START = 0xFE"
definition CMD_RESET :: u8 where "CMD_RESET = 0xEE"
definition CMD_GET_BUS_WIDTHS :: u8 where "CMD_GET_BUS_WIDTHS = 0xAA"
definition CMD_GET_LA_ID :: u8 where "CMD_GET_LA_ID = 0xBB"
definition CMD_ESCAPE :: u8 where "CMD_ESCAPE = 0x55"
definition CMD_TRIG_MASKS :: u8 where "CMD_TRIG_MASKS = 0xF1"
definition CMD_TRIG_MASK :: u8 where "CMD_TRIG_MASK = 0xF3"
definition CMD_TRIG_VALUE :: u8 where "CMD_TRIG_VALUE = 0xF7"
definition CMD_TRIG_MASKS_LAST :: u8 where "CMD_TRIG_MASKS_LAST = 0xF9"
definition CMD_TRIG_MASK_LAST :: u8 where "CMD_TRIG_MASK_LAST = 0xFB"
definition CMD_TRIG_VALUE_LAST :: u8 where "CMD_TRIG_VALUE_LAST = 0xFF"
definition CMD_TRIG_SELECT_EDGE_MASK :: u8 where "CMD_TRIG_SELECT_EDGE_MASK = 0xF5"
definition CMD_TRIG_SET_EDGE_MASK :: u8 where "CMD_TRIG_SET_EDGE_MASK = 0xF6"
definition CMD_LA_DELAY :: u8 where "CMD_LA_DELAY = 0x1F"
definition CMD_GET_FEATURES :: u8 where "CMD_GET_FEATURES = 0x10"
definition CMD_GET_RLC_WIDTH :: u8 where "CMD_GET_RLC_WIDTH = 0x60"
definition CMD_GET_CHANNEL_NAMES :: u8 where "CMD_GET_CHANNEL_NAMES = 0x70"
definition CMD_GET_SAMPLE_RATE :: u8 where "CMD_GET_SAMPLE_RATE = 0x80"

definition FEATURE_AUGMENTER_APP_ENABLED :: u32 where
  "FEATURE_AUGMENTER_APP_ENABLED = 0x00000001"
definition FEATURE_RUNLENGTH_CODER_ENABLED :: u32 where
  "FEATURE_RUNLENGTH_CODER_ENABLED = 0x00000002"
definition FEATURE_AUGMENTER_SAMPLERATE_ENABLED :: u32 where
  "FEATURE_AUGMENTER_SAMPLERATE_ENABLED = 0x00000004"
definition FEATURE_AUGMENTER_CH_NAMES_ENABLED :: u32 where
  "FEATURE_AUGMENTER_CH_NAMES_ENABLED = 0x00000008"

definition host_word_size :: u8 where "host_word_size = 8"

subsection \<open>The socket\<close>

text \<open>
  \<open>SR_OK\<close> and \<open>SR_ERR\<close> are the two libsigrok status codes the file returns.

  \<open>tx\<close> holds the bytes passed to \<open>send\<close>, in call order. \<open>send_rc\<close> scripts what the
  successive calls of \<open>send\<close> return (when it is exhausted, the whole buffer is
  accepted); the return value only decides the status and the message logged.
  \<open>rx\<close> scripts the successive polls of the socket: a failing \<open>FIONREAD\<close> query,
  nothing pending, a failing \<open>recv\<close>, or the bytes pending at that poll (an exhausted
  script means nothing is pending). \<open>msgs\<close> keeps the messages handed to
  the \<open>sr_err\<close>, \<open>sr_warn\<close> and \<open>sr_dbg\<close> logging macros.
\<close>

datatype sr_status = SR_OK | SR_ERR

datatype rx_event = Rx_ioctl_failed | Rx_idle | Rx_error | Rx_data "u8 list"

record ipdbg_la_tcp =
  tx :: "u8 list"
  send_rc :: "int list"
  rx :: "rx_event list"
  msgs :: "string list"

definition sr_log :: "string \<Rightarrow> ipdbg_la_tcp \<Rightarrow> ipdbg_la_tcp" where
  "sr_log m tcp = tcp\<lparr>msgs := msgs tcp @ [m]\<rparr>"

definition tcp_send :: "ipdbg_la_tcp \<Rightarrow> u8 list \<Rightarrow> sr_status \<times> ipdbg_la_tcp" where
  "tcp_send tcp buf =
     (let out = (case send_rc tcp of [] \<Rightarrow> int (length buf) | r # _ \<Rightarrow> r);
          tcp1 = tcp\<lparr>tx := tx tcp @ buf, send_rc := tl (send_rc tcp)\<rparr>
      in if out < 0 then (SR_ERR, sr_log ''Send error'' tcp1)
         else if out < int (length buf) then (SR_OK, sr_log ''Only sent part of the data'' tcp1)
         else (SR_OK, tcp1))"

subsection \<open>Escaping\<close>

text \<open>
  \<open>send_escaping tcp data_to_send length\<close>: the loop \<open>while (length--)\<close> reads one byte
  per round from the array; reading past its end is \<open>None\<close>. A failing send is only
  logged.
\<close>

definition send_warn :: "string \<Rightarrow> sr_status \<times> ipdbg_la_tcp \<Rightarrow> ipdbg_la_tcp" where
  "send_warn m r = (if fst r \<noteq> SR_OK then sr_log m (snd r) else snd r)"

fun send_escaping :: "ipdbg_la_tcp \<Rightarrow> u8 list \<Rightarrow> nat \<Rightarrow> (sr_status \<times> ipdbg_la_tcp) option" where
  "send_escaping tcp data_to_send 0 = Some (SR_OK, tcp)"
| "send_escaping tcp [] (Suc n) = None"
| "send_escaping tcp (payload # rest) (Suc n) =
     (let escape = CMD_ESCAPE;
          tcp1 = (if payload = CMD_RESET
                  then send_warn ''Couldn't send escape'' (tcp_send tcp [escape]) else tcp);
          tcp2 = (if payload = CMD_ESCAPE
                  then send_warn ''Couldn't send escape'' (tcp_send tcp1 [escape]) else tcp1);
          tcp3 = send_warn ''Couldn't send data'' (tcp_send tcp2 [payload])
      in send_escaping tcp3 rest n)"

subsection \<open>Receiving\<close>

text \<open>
  \<open>data_available\<close> and \<open>ipdbg_la_tcp_receive\<close> consume one event of the script. The
  receive returns the count \<open>recv\<close> reported (\<open>-1\<close> on an error) with the bytes it
  stored; pending bytes beyond \<open>bufsize\<close> stay pending.
\<close>

definition data_available :: "ipdbg_la_tcp \<Rightarrow> bool \<times> ipdbg_la_tcp" where
  "data_available tcp =
     (case rx tcp of
        [] \<Rightarrow> (False, tcp)
      | Rx_ioctl_failed # es \<Rightarrow> (False, sr_log ''FIONREAD failed'' (tcp\<lparr>rx := es\<rparr>))
      | Rx_idle # es \<Rightarrow> (False, tcp\<lparr>rx := es\<rparr>)
      | Rx_error # es \<Rightarrow> (True, tcp)
      | Rx_data d # es \<Rightarrow> (True, tcp))"

definition ipdbg_la_tcp_receive :: "ipdbg_la_tcp \<Rightarrow> nat \<Rightarrow> int \<times> u8 list \<times> ipdbg_la_tcp" where
  "ipdbg_la_tcp_receive tcp bufsize =
     (case data_available tcp of
        (False, tcp1) \<Rightarrow> (0, [], tcp1)
      | (True, tcp1) \<Rightarrow>
          (case rx tcp1 of
             Rx_data d # es \<Rightarrow>
               (int (length (take bufsize d)), take bufsize d,
                tcp1\<lparr>rx := (if length d \<le> bufsize then es else Rx_data (drop bufsize d) # es)\<rparr>)
           | _ \<Rightarrow> (-1, [], sr_log ''Receive error'' (tcp1\<lparr>rx := tl (rx tcp1)\<rparr>))))"

text \<open>
  \<open>tcp_receive_blocking\<close>: the loop \<open>while (received < bufsize && error_count < 2000)\<close>.
  \<open>got\<close> are the bytes stored so far (\<open>received\<close> is their number); the function
  returns them, and \<open>received\<close> is the length of the result.
\<close>

function tcp_receive_blocking_from ::
  "ipdbg_la_tcp \<Rightarrow> nat \<Rightarrow> u8 list \<Rightarrow> nat \<Rightarrow> u8 list \<times> ipdbg_la_tcp" where
  "tcp_receive_blocking_from tcp bufsize got error_count =
     (if length got < bufsize \<and> error_count < 2000 then
        (let r = ipdbg_la_tcp_receive tcp (bufsize - length got) in
         if 0 < fst r
         then tcp_receive_blocking_from (snd (snd r)) bufsize (got @ fst (snd r)) error_count
         else tcp_receive_blocking_from (snd (snd r)) bufsize got (error_count + 1))
      else (got, tcp))"
  by pat_completeness auto
termination
  by (relation "measure (\<lambda>(tcp, bufsize, got, ec). (bufsize - length got) + (2000 - ec))")
     (auto simp: ipdbg_la_tcp_receive_def data_available_def neq_Nil_conv
           split: list.splits rx_event.splits prod.splits bool.splits if_splits)

definition tcp_receive_blocking :: "ipdbg_la_tcp \<Rightarrow> nat \<Rightarrow> u8 list \<times> ipdbg_la_tcp" where
  "tcp_receive_blocking tcp bufsize = tcp_receive_blocking_from tcp bufsize [] 0"

subsection \<open>The device context\<close>

text \<open>
  \<open>struct dev_context\<close> is declared in \<open>protocol.h\<close>, which is not among the sources;
  the fields are the ones \<open>protocol.c\<close> uses, with the widths the code gives them: the two
  bus widths and the feature set are assembled from four bytes, the sample counts and
  the sample rate are 64 bit wide, the run-length code width and the version are one
  byte read from the device, the capture ratio is a percentage. The five trigger vectors are arrays of
  \<open>data_width_bytes\<close> bytes.
\<close>

record dev_context =
  data_width :: u32
  data_width_bytes :: u32
  addr_width :: u32
  addr_width_bytes :: u32
  limit_samples :: u64
  limit_samples_max :: u64
  capture_ratio :: u8
  trigger_mask :: "u8 list"
  trigger_value :: "u8 list"
  trigger_mask_last :: "u8 list"
  trigger_value_last :: "u8 list"
  trigger_edge_mask :: "u8 list"
  delay_value :: u64
  num_stages :: int
  num_transfers :: u64
  raw_sample_buf :: "u8 list option"
  version :: u8
  features :: u32
  runlength_code_width :: u8
  cur_samplerate :: u64

subsection \<open>Array accesses\<close>

text \<open>Reads and writes of a C array: outside the array they are undefined.\<close>

definition load :: "'a list \<Rightarrow> nat \<Rightarrow> 'a option" where
  "load xs i = (if i < length xs then Some (xs ! i) else None)"

definition modify :: "u8 list \<Rightarrow> int \<Rightarrow> (u8 \<Rightarrow> u8) \<Rightarrow> u8 list option" where
  "modify v i f =
     (if 0 \<le> i \<and> nat i < length v then Some (v[nat i := f (v ! nat i)]) else None)"

subsection \<open>Identity request\<close>

text \<open>
  \<open>strncmp\<close> on byte arrays: at most \<open>n\<close> characters, compared as unsigned, stopping
  at a NUL. The literals \<open>"IDBG"\<close> and \<open>"idbg"\<close> are their ASCII codes with the
  terminating NUL.
\<close>

fun strncmp :: "u8 list \<Rightarrow> u8 list \<Rightarrow> nat \<Rightarrow> int option" where
  "strncmp s1 s2 0 = Some 0"
| "strncmp (a # s1) (b # s2) (Suc n) =
     (if a \<noteq> b then Some (uint a - uint b)
      else if a = 0 then Some 0
      else strncmp s1 s2 n)"
| "strncmp s1 s2 (Suc n) = None"

definition str_IDBG :: "u8 list" where "str_IDBG = [0x49, 0x44, 0x42, 0x47, 0]"
definition str_idbg :: "u8 list" where "str_idbg = [0x69, 0x64, 0x62, 0x67, 0]"

text \<open>
  \<open>ipdbg_la_request_id\<close> returns the status, what it stored to \<open>*version\<close> (nothing
  is \<open>None\<close>) and the socket.
\<close>

definition ipdbg_la_request_id ::
  "ipdbg_la_tcp \<Rightarrow> (sr_status \<times> u8 option \<times> ipdbg_la_tcp) option" where
  "ipdbg_la_request_id tcp =
     (let buf = CMD_GET_LA_ID;
          tcp1 = send_warn ''Couldn't send ID request'' (tcp_send tcp [buf]);
          r = tcp_receive_blocking tcp1 4;
          ident = fst r;
          tcp2 = snd r
      in if int (length ident) \<noteq> 4
         then Some (SR_ERR, None, sr_log ''Couldn't read device ID'' tcp2)
         else do {
           cmp_IDBG \<leftarrow> strncmp ident str_IDBG 4;
           cmp_idbg \<leftarrow> strncmp ident str_idbg 4;
           if cmp_IDBG = 0 \<and> cmp_idbg = 0
           then Some (SR_ERR, None, sr_log ''Invalid device ID'' tcp2)
           else Some (SR_OK, Some (if cmp_IDBG = 0 then 0 else 1), tcp2)
         })"

subsection \<open>Sample rate\<close>

text \<open>
  \<open>buf[k] << n\<close> shifts a byte promoted to \<open>int\<close> (32 bits). The C standard defines
  the result only for a shift count below the width of \<open>int\<close> and a result that fits
  \<open>int\<close>; every other shift is undefined.
\<close>

definition c_int_shl :: "int \<Rightarrow> nat \<Rightarrow> int option" where
  "c_int_shl a n = (if n < 32 \<and> 0 \<le> a \<and> a * 2 ^ n < 2 ^ 31 then Some (a * 2 ^ n) else None)"

definition shifted_byte :: "u8 \<Rightarrow> nat \<Rightarrow> u64 \<Rightarrow> u64 option" where
  "shifted_byte b n m = map_option (\<lambda>v. word_of_int v AND m) (c_int_shl (uint b) n)"

definition ipdbg_la_set_samplerate ::
  "dev_context \<Rightarrow> ipdbg_la_tcp \<Rightarrow> (dev_context \<times> ipdbg_la_tcp) option" where
  "ipdbg_la_set_samplerate devc tcp =
     (let buffer_size = 8; features_cmd = CMD_GET_SAMPLE_RATE in
      if features devc AND FEATURE_AUGMENTER_SAMPLERATE_ENABLED = 0 then Some (devc, tcp)
      else
        (let s = tcp_send tcp [features_cmd] in
         if fst s \<noteq> SR_OK then Some (devc, sr_log ''Can't send cmd get sample rate'' (snd s))
         else
           (let r = tcp_receive_blocking (snd s) buffer_size; buf = fst r; tcp2 = snd r in
            if length buf \<noteq> buffer_size
            then Some (devc, sr_log ''Can't receive sample rate'' tcp2)
            else do {
              b1 \<leftarrow> shifted_byte (buf ! 1) 8 0x000000000000FF00;
              b2 \<leftarrow> shifted_byte (buf ! 2) 16 0x0000000000FF0000;
              b3 \<leftarrow> shifted_byte (buf ! 3) 24 0x00000000FF000000;
              b4 \<leftarrow> shifted_byte (buf ! 4) 32 0x000000FF00000000;
              b5 \<leftarrow> shifted_byte (buf ! 5) 40 0x0000FF0000000000;
              b6 \<leftarrow> shifted_byte (buf ! 6) 48 0x00FF000000000000;
              b7 \<leftarrow> shifted_byte (buf ! 7) 56 0xFF00000000000000;
              Some (devc\<lparr>cur_samplerate :=
                      (ucast (buf ! 0) AND 0x00000000000000FF) OR b1 OR b2 OR b3 OR b4 OR b5
                        OR b6 OR b7\<rparr>, tcp2)
            })))"

subsection \<open>Trigger conversion\<close>

text \<open>
  The trigger of the session, as libsigrok hands it over: stages, each a list of
  matches, each a channel (its index and whether it is enabled) with the kind of match.
  \<open>SR_TRIGGER_OVER\<close> and \<open>SR_TRIGGER_UNDER\<close> are the kinds of libsigrok that the
  \<open>else if\<close> chain of the conversion does not list.
\<close>

datatype sr_trigger_matches =
  SR_TRIGGER_ZERO | SR_TRIGGER_ONE | SR_TRIGGER_RISING | SR_TRIGGER_FALLING |
  SR_TRIGGER_EDGE | SR_TRIGGER_OVER | SR_TRIGGER_UNDER

record sr_channel =
  index :: int
  enabled :: bool

record sr_trigger_match =
  channel :: sr_channel
  match :: sr_trigger_matches

record sr_trigger_stage =
  matches :: "sr_trigger_match list"

record sr_trigger =
  stages :: "sr_trigger_stage list"

text \<open>C's \<open>/\<close> and \<open>%\<close> on \<open>int\<close> truncate towards zero.\<close>

definition c_quot :: "int \<Rightarrow> int \<Rightarrow> int" where
  "c_quot a b = sgn a * sgn b * (\<bar>a\<bar> div \<bar>b\<bar>)"

definition c_rem :: "int \<Rightarrow> int \<Rightarrow> int" where
  "c_rem a b = a - b * c_quot a b"

text \<open>
  The loop that clears the five vectors, \<open>for (i = 0; i < data_width_bytes; i++)\<close>,
  over the values of \<open>i\<close>.
\<close>

fun clear_vectors :: "nat list \<Rightarrow> dev_context \<Rightarrow> dev_context option" where
  "clear_vectors [] devc = Some devc"
| "clear_vectors (i # rest) devc = do {
     m \<leftarrow> modify (trigger_mask devc) (int i) (\<lambda>_. 0);
     v \<leftarrow> modify (trigger_value devc) (int i) (\<lambda>_. 0);
     ml \<leftarrow> modify (trigger_mask_last devc) (int i) (\<lambda>_. 0);
     vl \<leftarrow> modify (trigger_value_last devc) (int i) (\<lambda>_. 0);
     em \<leftarrow> modify (trigger_edge_mask devc) (int i) (\<lambda>_. 0);
     clear_vectors rest
       (devc\<lparr>trigger_mask := m, trigger_value := v, trigger_mask_last := ml,
              trigger_value_last := vl, trigger_edge_mask := em\<rparr>)
   }"

text \<open>
  The body of the inner loop, for one match. \<open>byte_idx\<close> and \<open>match_bit\<close> are computed
  before the channel is tested; \<open>1 << (index % 8)\<close> is undefined for a negative count.
\<close>

definition trigger_match_step :: "dev_context \<Rightarrow> sr_trigger_match \<Rightarrow> dev_context option" where
  "trigger_match_step devc m =
     (let byte_idx = c_quot (index (channel m)) 8;
          sh = c_rem (index (channel m)) 8
      in if sh < 0 then None
         else
           (let match_bit = (push_bit (nat sh) 1 :: u8) in
            if \<not> enabled (channel m) then Some devc
            else if match m = SR_TRIGGER_ONE then do {
              v \<leftarrow> modify (trigger_value devc) byte_idx (\<lambda>x. x OR match_bit);
              k \<leftarrow> modify (trigger_mask devc) byte_idx (\<lambda>x. x OR match_bit);
              kl \<leftarrow> modify (trigger_mask_last devc) byte_idx (\<lambda>x. x AND NOT match_bit);
              e \<leftarrow> modify (trigger_edge_mask devc) byte_idx (\<lambda>x. x AND NOT match_bit);
              Some (devc\<lparr>trigger_value := v, trigger_mask := k, trigger_mask_last := kl,
                          trigger_edge_mask := e\<rparr>) }
            else if match m = SR_TRIGGER_ZERO then do {
              v \<leftarrow> modify (trigger_value devc) byte_idx (\<lambda>x. x AND NOT match_bit);
              k \<leftarrow> modify (trigger_mask devc) byte_idx (\<lambda>x. x OR match_bit);
              kl \<leftarrow> modify (trigger_mask_last devc) byte_idx (\<lambda>x. x AND NOT match_bit);
              e \<leftarrow> modify (trigger_edge_mask devc) byte_idx (\<lambda>x. x AND NOT match_bit);
              Some (devc\<lparr>trigger_value := v, trigger_mask := k, trigger_mask_last := kl,
                          trigger_edge_mask := e\<rparr>) }
            else if match m = SR_TRIGGER_RISING then do {
              v \<leftarrow> modify (trigger_value devc) byte_idx (\<lambda>x. x OR match_bit);
              vl \<leftarrow> modify (trigger_value_last devc) byte_idx (\<lambda>x. x AND NOT match_bit);
              k \<leftarrow> modify (trigger_mask devc) byte_idx (\<lambda>x. x OR match_bit);
              kl \<leftarrow> modify (trigger_mask_last devc) byte_idx (\<lambda>x. x OR match_bit);
              e \<leftarrow> modify (trigger_edge_mask devc) byte_idx (\<lambda>x. x AND NOT match_bit);
              Some (devc\<lparr>trigger_value := v, trigger_value_last := vl, trigger_mask := k,
                          trigger_mask_last := kl, trigger_edge_mask := e\<rparr>) }
            else if match m = SR_TRIGGER_FALLING then do {
              v \<leftarrow> modify (trigger_value devc) byte_idx (\<lambda>x. x AND NOT match_bit);
              vl \<leftarrow> modify (trigger_value_last devc) byte_idx (\<lambda>x. x OR match_bit);
              k \<leftarrow> modify (trigger_mask devc) byte_idx (\<lambda>x. x OR match_bit);
              kl \<leftarrow> modify (trigger_mask_last devc) byte_idx (\<lambda>x. x OR match_bit);
              e \<leftarrow> modify (trigger_edge_mask devc) byte_idx (\<lambda>x. x AND NOT match_bit);
              Some (devc\<lparr>trigger_value := v, trigger_value_last := vl, trigger_mask := k,
                          trigger_mask_last := kl, trigger_edge_mask := e\<rparr>) }
            else if match m = SR_TRIGGER_EDGE then do {
              k \<leftarrow> modify (trigger_mask devc) byte_idx (\<lambda>x. x AND NOT match_bit);
              kl \<leftarrow> modify (trigger_mask_last devc) byte_idx (\<lambda>x. x AND NOT match_bit);
              e \<leftarrow> modify (trigger_edge_mask devc) byte_idx (\<lambda>x. x OR match_bit);
              Some (devc\<lparr>trigger_mask := k, trigger_mask_last := kl, trigger_edge_mask := e\<rparr>) }
            else Some devc))"

text \<open>The loop over the matches of a stage, and the loop over the stages.\<close>

fun convert_matches :: "dev_context \<Rightarrow> sr_trigger_match list \<Rightarrow> dev_context option" where
  "convert_matches devc [] = Some devc"
| "convert_matches devc (m # rest) = do {
     devc1 \<leftarrow> trigger_match_step devc m;
     convert_matches devc1 rest
   }"

fun convert_stages :: "dev_context \<Rightarrow> sr_trigger_stage list \<Rightarrow> dev_context option" where
  "convert_stages devc [] = Some devc"
| "convert_stages devc (stage # rest) = do {
     devc1 \<leftarrow> convert_matches devc (matches stage);
     convert_stages devc1 rest
   }"

text \<open>
  \<open>ipdbg_la_convert_trigger\<close>, given what \<open>sr_session_trigger_get\<close> returns for the
  session (\<open>None\<close> when the session has no trigger).
\<close>

definition ipdbg_la_convert_trigger ::
  "sr_trigger option \<Rightarrow> dev_context \<Rightarrow> (sr_status \<times> dev_context) option" where
  "ipdbg_la_convert_trigger session_trigger devc = do {
     devc1 \<leftarrow> clear_vectors [0..<unat (data_width_bytes devc)]
               (devc\<lparr>num_stages := 0, num_transfers := 0, raw_sample_buf := None\<rparr>);
     case session_trigger of
       None \<Rightarrow> Some (SR_OK, devc1)
     | Some trigger \<Rightarrow> do {
         devc2 \<leftarrow> convert_stages devc1 (stages trigger);
         Some (SR_OK, devc2)
       }
   }"

subsection \<open>Sending the trigger\<close>

text \<open>
  The loop \<open>for (i = 0; i < data_width_bytes; i++) send_escaping(tcp, vec +
  data_width_bytes - 1 - i, 1)\<close> over the values of \<open>i\<close>: each round escapes the one
  byte at \<open>data_width_bytes - 1 - i\<close>.
\<close>

fun send_vector :: "ipdbg_la_tcp \<Rightarrow> u8 list \<Rightarrow> nat \<Rightarrow> nat list \<Rightarrow> ipdbg_la_tcp option" where
  "send_vector tcp vec width [] = Some tcp"
| "send_vector tcp vec width (i # rest) =
     (if i < width \<and> width - 1 - i < length vec then do {
        r \<leftarrow> send_escaping tcp (drop (width - 1 - i) vec) 1;
        send_vector (snd r) vec width rest }
      else None)"

definition send_opcodes :: "ipdbg_la_tcp \<Rightarrow> u8 \<Rightarrow> u8 \<Rightarrow> u8 \<Rightarrow> ipdbg_la_tcp" where
  "send_opcodes tcp a b c =
     snd (tcp_send (snd (tcp_send (snd (tcp_send tcp [a])) [b])) [c])"

definition ipdbg_la_send_trigger ::
  "dev_context \<Rightarrow> ipdbg_la_tcp \<Rightarrow> (sr_status \<times> ipdbg_la_tcp) option" where
  "ipdbg_la_send_trigger devc tcp =
     (let n = unat (data_width_bytes devc) in do {
        t1 \<leftarrow> send_vector (send_opcodes tcp CMD_CFG_TRIGGER CMD_TRIG_MASKS CMD_TRIG_MASK)
                (trigger_mask devc) n [0..<n];
        t2 \<leftarrow> send_vector (send_opcodes t1 CMD_CFG_TRIGGER CMD_TRIG_MASKS CMD_TRIG_VALUE)
                (trigger_value devc) n [0..<n];
        t3 \<leftarrow> send_vector (send_opcodes t2 CMD_CFG_TRIGGER CMD_TRIG_MASKS_LAST CMD_TRIG_MASK_LAST)
                (trigger_mask_last devc) n [0..<n];
        t4 \<leftarrow> send_vector (send_opcodes t3 CMD_CFG_TRIGGER CMD_TRIG_MASKS_LAST CMD_TRIG_VALUE_LAST)
                (trigger_value_last devc) n [0..<n];
        t5 \<leftarrow> send_vector
                (send_opcodes t4 CMD_CFG_TRIGGER CMD_TRIG_SELECT_EDGE_MASK CMD_TRIG_SET_EDGE_MASK)
                (trigger_edge_mask devc) n [0..<n];
        Some (SR_OK, t5)
      })"

subsection \<open>The trigger delay\<close>

text \<open>
  \<open>ipdbg_la_send_delay\<close> computes \<open>((limit_samples - 1) / 100.0) * capture_ratio\<close> in
  \<open>double\<close> and stores it in the 64 bit \<open>delay_value\<close>. A \<open>double\<close> is an IEEE 754
  binary64 number; the values of this computation are finite and not negative, and such
  a number is \<open>mant * 2 ^ expo\<close> with \<open>mant < 2 ^ 53\<close>. Every operation (the conversion
  of an integer, the division, the multiplication) gives the exact result rounded to the
  nearest such number, a tie going to the even mantissa: \<open>nearest_double p q\<close> rounds the
  fraction \<open>p / q\<close>. It takes the exponent \<open>e\<close> with \<open>2 ^ 52 \<le> (p / q) / 2 ^ e < 2 ^ 53\<close>,
  found from the bit lengths of \<open>p\<close> and \<open>q\<close>, and rounds \<open>(p / q) / 2 ^ e\<close> to an integer.
  The operands of this function lie between \<open>1 / 100\<close> and \<open>2 ^ 66\<close>, where binary64 has
  neither overflow nor subnormal numbers, so the exponent is not bounded here. The
  divisor is the constant \<open>100.0\<close>, never zero.
\<close>

record double =
  mant :: nat
  expo :: int

fun bit_length :: "nat \<Rightarrow> nat" where
  "bit_length n = (if n = 0 then 0 else Suc (bit_length (n div 2)))"

declare bit_length.simps [simp del]

text \<open>\<open>scale n k\<close> is \<open>n * 2 ^ k\<close> for \<open>0 \<le> k\<close> and \<open>n\<close> otherwise.\<close>

definition scale :: "nat \<Rightarrow> int \<Rightarrow> nat" where
  "scale n k = n * 2 ^ nat k"

definition round_half_even :: "nat \<Rightarrow> nat \<Rightarrow> nat" where
  "round_half_even p q =
     (let d = p div q; r = p mod q
      in if 2 * r < q then d else if q < 2 * r then d + 1 else if even d then d else d + 1)"

definition nearest_double :: "nat \<Rightarrow> nat \<Rightarrow> double" where
  "nearest_double p q =
     (if p = 0 then \<lparr>mant = 0, expo = 0\<rparr>
      else let k = int (bit_length p) - int (bit_length q);
               lg = (if scale q k \<le> scale p (- k) then k else k - 1);
               e = lg - 52;
               m = round_half_even (scale p (- e)) (scale q e)
           in if m = 2 ^ 53 then \<lparr>mant = 2 ^ 52, expo = e + 1\<rparr> else \<lparr>mant = m, expo = e\<rparr>)"

definition double_of_nat :: "nat \<Rightarrow> double" where
  "double_of_nat n = nearest_double n 1"

definition double_div :: "double \<Rightarrow> double \<Rightarrow> double" where
  "double_div a b =
     nearest_double (scale (mant a) (expo a - expo b)) (scale (mant b) (expo b - expo a))"

definition double_mul :: "double \<Rightarrow> double \<Rightarrow> double" where
  "double_mul a b =
     (let e = expo a + expo b
      in nearest_double (scale (mant a * mant b) e) (scale 1 (- e)))"

text \<open>
  The conversion of a \<open>double\<close> to \<open>uint64_t\<close> drops the fraction; it is undefined when
  the integral part does not fit.
\<close>

definition u64_of_double :: "double \<Rightarrow> u64 option" where
  "u64_of_double d =
     (let t = scale (mant d) (expo d) div scale 1 (- expo d)
      in if t < 2 ^ 64 then Some (word_of_nat t) else None)"

text \<open>
  \<open>limit_samples - 1\<close> is computed in \<open>uint64_t\<close> and wraps at 0. The two opcodes are
  sent unescaped and their results ignored; the four bytes of \<open>delay_buf\<close> are the low 32
  bits of the delay, and the loop sends \<open>delay_buf[addr_width_bytes - 1 - i]\<close> escaped,
  which lies outside the array when \<open>addr_width_bytes\<close> exceeds 4.
\<close>

definition ipdbg_la_send_delay ::
  "dev_context \<Rightarrow> ipdbg_la_tcp \<Rightarrow> (sr_status \<times> dev_context \<times> ipdbg_la_tcp) option" where
  "ipdbg_la_send_delay devc tcp = do {
     dv \<leftarrow> u64_of_double
            (double_mul
               (double_div (double_of_nat (unat (limit_samples devc - 1))) (double_of_nat 100))
               (double_of_nat (unat (capture_ratio devc))));
     let devc1 = devc\<lparr>delay_value := dv\<rparr>;
         tcp1 = snd (tcp_send tcp [CMD_CFG_LA]);
         tcp2 = snd (tcp_send tcp1 [CMD_LA_DELAY]);
         delay_buf = [ucast (dv AND 0xff), ucast (drop_bit 8 dv AND 0xff),
                      ucast (drop_bit 16 dv AND 0xff), ucast (drop_bit 24 dv AND 0xff)] :: u8 list;
         n = unat (addr_width_bytes devc1)
     in do {
       tcp3 \<leftarrow> send_vector tcp2 delay_buf n [0..<n];
       Some (SR_OK, devc1, tcp3) } }"

subsection \<open>The GLib allocator\<close>

text \<open>
  \<open>can_alloc n\<close> says whether the allocator can supply \<open>n\<close> bytes; \<open>garbage\<close> is the
  content of fresh memory. \<open>g_try_malloc\<close> returns \<open>NULL\<close> for a request of 0 bytes and
  when the memory is not available. \<open>g_malloc\<close> returns \<open>NULL\<close> for a request of 0 bytes
  and ends the program when the memory is not available (the outer \<open>None\<close>).
\<close>

record glib_heap =
  can_alloc :: "nat \<Rightarrow> bool"
  garbage :: "nat \<Rightarrow> u8"

definition g_try_malloc :: "glib_heap \<Rightarrow> u64 \<Rightarrow> u8 list option" where
  "g_try_malloc heap n_bytes =
     (if n_bytes = 0 \<or> \<not> can_alloc heap (unat n_bytes) then None
      else Some (map (garbage heap) [0..<unat n_bytes]))"

definition g_malloc :: "glib_heap \<Rightarrow> u64 \<Rightarrow> u8 list option option" where
  "g_malloc heap n_bytes =
     (if n_bytes = 0 then Some None
      else if can_alloc heap (unat n_bytes) then Some (Some (map (garbage heap) [0..<unat n_bytes]))
      else None)"

subsection \<open>Run-length decoding\<close>

text \<open>
  The inner loop of the first pass, \<open>for (byte = 0; byte < runlength_code_width_bytes;
  ++byte) repeats[i] |= (uint32_t)(*(raw_sample_buffer + i * raw_data_width_bytes + byte))
  << (byte * host_word_size)\<close>, over the values of \<open>byte\<close>; \<open>base\<close> is
  \<open>i * raw_data_width_bytes\<close>. A shift of a 32 bit value by 32 or more is undefined.
\<close>

fun gather_repeat :: "u8 list \<Rightarrow> nat \<Rightarrow> nat list \<Rightarrow> u32 \<Rightarrow> u32 option" where
  "gather_repeat buf base [] rep = Some rep"
| "gather_repeat buf base (byte # rest) rep = do {
     b \<leftarrow> load buf (base + byte);
     if byte * unat host_word_size < 32
     then gather_repeat buf base rest (rep OR push_bit (byte * unat host_word_size) (ucast b))
     else None
   }"

text \<open>
  The first pass over the raw samples: the state is the table \<open>repeats\<close> filled so
  far, \<open>*delay_value\<close> and \<open>*total_samples\<close>.
\<close>

fun count_repeats ::
  "u8 list \<Rightarrow> u32 \<Rightarrow> u32 \<Rightarrow> u32 \<Rightarrow> u64 \<Rightarrow> nat list \<Rightarrow> u32 list \<times> u64 \<times> u64 \<Rightarrow>
   (u32 list \<times> u64 \<times> u64) option" where
  "count_repeats buf raw_bytes code_bytes count_mask raw_delay [] st = Some st"
| "count_repeats buf raw_bytes code_bytes count_mask raw_delay (i # rest) (repeats, delay, samples) = do {
     r \<leftarrow> gather_repeat buf (i * unat raw_bytes) [0..<unat code_bytes] 0;
     let rep = (r AND count_mask) + 1;
     count_repeats buf raw_bytes code_bytes count_mask raw_delay rest
       (repeats @ [rep], if i < unat raw_delay then delay + ucast rep else delay, samples + ucast rep)
   }"

text \<open>
  One byte of the payload of raw sample \<open>i\<close>, as the second pass computes it in the
  16 bit variable \<open>buffer\<close>.
\<close>

definition payload_byte :: "u8 list \<Rightarrow> u8 \<Rightarrow> u32 \<Rightarrow> u32 \<Rightarrow> nat \<Rightarrow> nat \<Rightarrow> u8 option" where
  "payload_byte buf code_width raw_bytes code_bytes i byte =
     (if code_width mod host_word_size \<noteq> 0 then do {
        lo \<leftarrow> load buf (i * unat raw_bytes + unat code_bytes - 1 + byte);
        hi \<leftarrow> (if byte < unat (raw_bytes - 1)
               then map_option (\<lambda>h. push_bit 8 (ucast h :: u16))
                      (load buf (i * unat raw_bytes + unat code_bytes + byte))
               else Some 0);
        Some (ucast (drop_bit (unat (code_width mod host_word_size)) ((ucast lo :: u16) OR hi)
                AND 0x00ff))
      }
      else do {
        b \<leftarrow> load buf (i * unat raw_bytes + unat code_bytes + byte);
        Some (ucast ((ucast b :: u16) AND 0x00ff))
      })"

text \<open>
  The second pass appends to the new buffer: \<open>write_sample\<close> is the loop over the bytes
  of one payload, \<open>copy_runs n\<close> is \<open>n\<close> rounds of the loop that copies the
  \<open>data_width_bytes\<close> bytes written last (\<open>memcpy(run_buffer, run_buffer -
  data_width_bytes, data_width_bytes)\<close>; the loop \<open>for (rep = 1; rep < repeats[i];
  ++rep)\<close> makes \<open>repeats[i] - 1\<close> rounds, and none when \<open>repeats[i]\<close> is 0).
\<close>

fun write_sample ::
  "u8 list \<Rightarrow> u8 \<Rightarrow> u32 \<Rightarrow> u32 \<Rightarrow> nat \<Rightarrow> nat list \<Rightarrow> u8 list \<Rightarrow> u8 list option" where
  "write_sample buf code_width raw_bytes code_bytes i [] run = Some run"
| "write_sample buf code_width raw_bytes code_bytes i (byte # rest) run = do {
     b \<leftarrow> payload_byte buf code_width raw_bytes code_bytes i byte;
     write_sample buf code_width raw_bytes code_bytes i rest (run @ [b])
   }"

fun copy_runs :: "nat \<Rightarrow> nat \<Rightarrow> u8 list \<Rightarrow> u8 list" where
  "copy_runs 0 width run = run"
| "copy_runs (Suc n) width run = copy_runs n width (run @ drop (length run - width) run)"

fun expand_samples ::
  "u8 list \<Rightarrow> u8 \<Rightarrow> u32 \<Rightarrow> u32 \<Rightarrow> u32 \<Rightarrow> u32 list \<Rightarrow> nat list \<Rightarrow> u8 list \<Rightarrow> u8 list option" where
  "expand_samples buf code_width raw_bytes code_bytes data_bytes repeats [] run = Some run"
| "expand_samples buf code_width raw_bytes code_bytes data_bytes repeats (i # rest) run = do {
     run1 \<leftarrow> write_sample buf code_width raw_bytes code_bytes i [0..<unat data_bytes] run;
     rep \<leftarrow> load repeats i;
     expand_samples buf code_width raw_bytes code_bytes data_bytes repeats rest
       (copy_runs (unat rep - 1) (unat data_bytes) run1)
   }"

text \<open>The three widths in bytes that the decoder and the receiver compute.\<close>

definition raw_data_width_bytes :: "dev_context \<Rightarrow> u32" where
  "raw_data_width_bytes devc =
     (data_width devc + ucast (runlength_code_width devc) + ucast host_word_size - 1)
       div ucast host_word_size"

definition local_data_width_bytes :: "dev_context \<Rightarrow> u32" where
  "local_data_width_bytes devc =
     (data_width devc + ucast host_word_size - 1) div ucast host_word_size"

definition runlength_code_width_bytes :: "dev_context \<Rightarrow> u32" where
  "runlength_code_width_bytes devc =
     (ucast (runlength_code_width devc) + ucast host_word_size - 1) div ucast host_word_size"

text \<open>
  \<open>first_pass\<close> is the first pass as the decoder runs it: over the raw buffer of the
  context, with the mask \<open>(uint32_t)((1ull << runlength_code_width) - 1)\<close>, the
  configured delay and all \<open>limit_samples\<close> raw samples, starting from an empty table
  and two zero sums.

  \<open>ipdbg_la_runlength_decode\<close> returns its truth value, the device context, and what
  it stored to \<open>*delay_value\<close> and \<open>*total_samples\<close>. \<open>1ull << runlength_code_width\<close> is
  undefined from 64 on. The table \<open>repeats\<close> is a block of \<open>total_raw_samples * 4\<close>
  bytes (the product taken in 64 bits); filling it for every raw sample is undefined
  when the block is smaller. The new buffer is the block of \<open>*total_samples *
  data_width_bytes\<close> bytes with the bytes of the second pass written from its start;
  writing more than the block holds is undefined.
\<close>

definition first_pass :: "dev_context \<Rightarrow> (u32 list \<times> u64 \<times> u64) option" where
  "first_pass devc =
     count_repeats (case raw_sample_buf devc of None \<Rightarrow> [] | Some b \<Rightarrow> b)
       (raw_data_width_bytes devc) (runlength_code_width_bytes devc)
       (ucast ((push_bit (unat (runlength_code_width devc)) 1 :: u64) - 1) :: u32)
       (delay_value devc) [0..<unat (limit_samples devc)] ([], 0, 0)"

definition ipdbg_la_runlength_decode ::
  "glib_heap \<Rightarrow> dev_context \<Rightarrow> (bool \<times> dev_context \<times> u64 \<times> u64) option" where
  "ipdbg_la_runlength_decode heap devc =
     (if runlength_code_width devc = 0
      then Some (True, devc, delay_value devc, limit_samples devc)
      else
        (let raw_sample_buffer = (case raw_sample_buf devc of None \<Rightarrow> [] | Some b \<Rightarrow> b);
             total_raw_samples = limit_samples devc
         in if 64 \<le> unat (runlength_code_width devc) then None
            else
              (case g_malloc heap (total_raw_samples * 4) of
                 None \<Rightarrow> None
               | Some None \<Rightarrow> Some (False, devc, 0, 0)
               | Some (Some table) \<Rightarrow> do {
                   (repeats, delay, samples) \<leftarrow>
                     (if length table < 4 * unat total_raw_samples then None
                      else first_pass devc);
                   case g_try_malloc heap (samples * ucast (local_data_width_bytes devc)) of
                     None \<Rightarrow> Some (False, devc, delay, samples)
                   | Some block \<Rightarrow> do {
                       run \<leftarrow> expand_samples raw_sample_buffer (runlength_code_width devc)
                                (raw_data_width_bytes devc) (runlength_code_width_bytes devc)
                                (local_data_width_bytes devc) repeats
                                [0..<unat total_raw_samples] [];
                       if length run \<le> length block
                       then Some (True,
                              devc\<lparr>raw_sample_buf := Some (run @ drop (length run) block)\<rparr>,
                              delay, samples)
                       else None
                     }
                 })))"

subsection \<open>Receiving the samples\<close>

text \<open>
  The device instance: its context (\<open>sdi->priv\<close>), its socket (\<open>sdi->conn\<close>), the
  packets sent to the session so far, and whether the socket is still a source of the
  session. A logic packet holds \<open>length\<close>, \<open>unitsize\<close> and the bytes \<open>data\<close> points
  to.
\<close>

datatype sr_datafeed_packet = SR_DF_LOGIC u64 u16 "u8 list" | SR_DF_TRIGGER | SR_DF_END

record sr_dev_inst =
  priv :: "dev_context option"
  conn :: ipdbg_la_tcp
  session_feed :: "sr_datafeed_packet list"
  session_source :: bool

definition ipdbg_la_abort_acquisition :: "sr_dev_inst \<Rightarrow> sr_dev_inst" where
  "ipdbg_la_abort_acquisition sdi =
     sdi\<lparr>session_source := False, session_feed := session_feed sdi @ [SR_DF_END]\<rparr>"

text \<open>\<open>memcpy(dst + off, src, n)\<close>: defined when both ranges lie in their arrays.\<close>

definition memcpy_into :: "u8 list \<Rightarrow> nat \<Rightarrow> u8 list \<Rightarrow> nat \<Rightarrow> u8 list option" where
  "memcpy_into dst off src n =
     (if off + n \<le> length dst \<and> n \<le> length src
      then Some (take off dst @ take n src @ drop (off + n) dst)
      else None)"

text \<open>
  The test that selects the branch of \<open>ipdbg_la_receive_data\<close>: true while the
  function reads from the socket, false when it decodes and delivers.
\<close>

definition accumulating :: "dev_context \<Rightarrow> bool" where
  "accumulating devc =
     (num_transfers devc < limit_samples_max devc * ucast (raw_data_width_bytes devc))"

text \<open>
  The reading branch. \<open>num_move\<close> is an \<open>int\<close>: the cast \<open>(int)\<close> of the 64 bit
  difference keeps its low 32 bits, read as two's complement. The bytes of the read
  are the source of the copy.
\<close>

definition num_move_of :: "dev_context \<Rightarrow> int \<Rightarrow> int" where
  "num_move_of devc recd =
     (if num_transfers devc + word_of_int recd
           \<le> limit_samples devc * ucast (raw_data_width_bytes devc)
      then recd
      else sint (ucast (limit_samples devc * ucast (raw_data_width_bytes devc)
                          - num_transfers devc) :: 32 word))"

definition receive_chunk ::
  "dev_context \<Rightarrow> u8 list \<Rightarrow> ipdbg_la_tcp \<Rightarrow> (dev_context \<times> ipdbg_la_tcp) option" where
  "receive_chunk devc raw_buf tcp =
     (let bufsize = 1024 * 16;
          r = ipdbg_la_tcp_receive tcp bufsize;
          recd = fst r; buffer = fst (snd r); tcp1 = snd (snd r)
      in if recd > 0 then
           (let num_move = num_move_of devc recd in do {
              buf1 \<leftarrow> (if num_move > 0
                       then memcpy_into raw_buf (unat (num_transfers devc)) buffer (nat num_move)
                       else Some raw_buf);
              Some (devc\<lparr>raw_sample_buf := Some buf1,
                          num_transfers := num_transfers devc + word_of_int recd\<rparr>, tcp1)
            })
         else Some (devc, tcp1))"

text \<open>The decoding branch: decode, send the two logic packets around the trigger, end.\<close>

definition deliver :: "glib_heap \<Rightarrow> sr_dev_inst \<Rightarrow> dev_context \<Rightarrow> (bool \<times> sr_dev_inst) option" where
  "deliver heap sdi devc = do {
     (ok, devc1, delay, samples) \<leftarrow> ipdbg_la_runlength_decode heap devc;
     if \<not> ok then Some (False, sdi\<lparr>priv := Some (devc1\<lparr>raw_sample_buf := None\<rparr>)\<rparr>)
     else
       (let buf = (case raw_sample_buf devc1 of None \<Rightarrow> [] | Some b \<Rightarrow> b);
            width = data_width_bytes devc1;
            pre = (if delay > 0
                   then [SR_DF_LOGIC (delay * ucast width) (ucast width)
                           (take (unat (delay * ucast width)) buf)]
                   else []);
            post = SR_DF_LOGIC ((samples - delay) * ucast width) (ucast width)
                     (take (unat ((samples - delay) * ucast width))
                        (drop (unat (delay * ucast width)) buf))
        in Some (True,
             ipdbg_la_abort_acquisition
               (sdi\<lparr>priv := Some (devc1\<lparr>raw_sample_buf := None\<rparr>),
                    session_feed := session_feed sdi @ pre @ [SR_DF_TRIGGER, post]\<rparr>)))
   }"

definition ipdbg_la_receive_data ::
  "glib_heap \<Rightarrow> sr_dev_inst option \<Rightarrow> (bool \<times> sr_dev_inst option) option" where
  "ipdbg_la_receive_data heap cb_data =
     (case cb_data of
        None \<Rightarrow> Some (False, None)
      | Some sdi \<Rightarrow>
          (case priv sdi of
             None \<Rightarrow> Some (False, Some sdi)
           | Some devc0 \<Rightarrow>
               (case (case raw_sample_buf devc0 of
                        None \<Rightarrow> g_try_malloc heap
                                  (limit_samples devc0 * ucast (raw_data_width_bytes devc0))
                      | Some b \<Rightarrow> Some b) of
                  None \<Rightarrow>
                    Some (False, Some (sdi\<lparr>conn := sr_log ''Sample buffer malloc failed.'' (conn sdi)\<rparr>))
                | Some raw_buf \<Rightarrow>
                    (let devc = devc0\<lparr>raw_sample_buf := Some raw_buf\<rparr> in
                     if accumulating devc then do {
                       (devc1, tcp1) \<leftarrow> receive_chunk devc raw_buf (conn sdi);
                       Some (True, Some (sdi\<lparr>priv := Some devc1, conn := tcp1\<rparr>))
                     }
                     else do {
                       (ok, sdi1) \<leftarrow> deliver heap sdi devc;
                       Some (ok, Some sdi1)
                     }))))"

section \<open>The specification\<close>

subsection \<open>Escaping\<close>

text \<open>
  The escape rule in the words of the specification: a byte equal to 0xEE or 0x55 is
  replaced by 0x55 followed by the byte, every other byte stays.
\<close>

definition escape_byte :: "u8 \<Rightarrow> u8 list" where
  "escape_byte b = (if b = 0xEE \<or> b = 0x55 then [0x55, b] else [b])"

definition escape_bytes :: "u8 list \<Rightarrow> u8 list" where
  "escape_bytes bs = concat (map escape_byte bs)"

subsection \<open>The trigger table\<close>

text \<open>
  The table of the specification: what a match of each kind does to the bit of its
  channel in \<open>value\<close>, \<open>value_last\<close>, \<open>mask\<close>, \<open>mask_last\<close> and \<open>edge_mask\<close>, in this
  order. The two kinds outside the table change nothing. The bit of channel \<open>c\<close> is
  bit \<open>c mod 8\<close> of byte \<open>c div 8\<close>.
\<close>

datatype bit_action = Set_bit | Clear_bit | Keep_bit

fun trigger_table ::
  "sr_trigger_matches \<Rightarrow> bit_action \<times> bit_action \<times> bit_action \<times> bit_action \<times> bit_action" where
  "trigger_table SR_TRIGGER_ONE = (Set_bit, Keep_bit, Set_bit, Clear_bit, Clear_bit)"
| "trigger_table SR_TRIGGER_ZERO = (Clear_bit, Keep_bit, Set_bit, Clear_bit, Clear_bit)"
| "trigger_table SR_TRIGGER_RISING = (Set_bit, Clear_bit, Set_bit, Set_bit, Clear_bit)"
| "trigger_table SR_TRIGGER_FALLING = (Clear_bit, Set_bit, Set_bit, Set_bit, Clear_bit)"
| "trigger_table SR_TRIGGER_EDGE = (Keep_bit, Keep_bit, Clear_bit, Clear_bit, Set_bit)"
| "trigger_table SR_TRIGGER_OVER = (Keep_bit, Keep_bit, Keep_bit, Keep_bit, Keep_bit)"
| "trigger_table SR_TRIGGER_UNDER = (Keep_bit, Keep_bit, Keep_bit, Keep_bit, Keep_bit)"

definition apply_action :: "bit_action \<Rightarrow> nat \<Rightarrow> u8 list \<Rightarrow> u8 list" where
  "apply_action a c v =
     (case a of
        Set_bit \<Rightarrow> v[c div 8 := set_bit (c mod 8) (v ! (c div 8))]
      | Clear_bit \<Rightarrow> v[c div 8 := unset_bit (c mod 8) (v ! (c div 8))]
      | Keep_bit \<Rightarrow> v)"

record trigger_vectors =
  vec_value :: "u8 list"
  vec_value_last :: "u8 list"
  vec_mask :: "u8 list"
  vec_mask_last :: "u8 list"
  vec_edge_mask :: "u8 list"

definition vectors_of :: "dev_context \<Rightarrow> trigger_vectors" where
  "vectors_of devc =
     \<lparr>vec_value = trigger_value devc, vec_value_last = trigger_value_last devc,
      vec_mask = trigger_mask devc, vec_mask_last = trigger_mask_last devc,
      vec_edge_mask = trigger_edge_mask devc\<rparr>"

definition zero_vectors :: "nat \<Rightarrow> trigger_vectors" where
  "zero_vectors n =
     \<lparr>vec_value = replicate n 0, vec_value_last = replicate n 0, vec_mask = replicate n 0,
      vec_mask_last = replicate n 0, vec_edge_mask = replicate n 0\<rparr>"

definition table_step :: "trigger_vectors \<Rightarrow> sr_trigger_match \<Rightarrow> trigger_vectors" where
  "table_step tv m =
     (if \<not> enabled (channel m) then tv
      else
        (let c = nat (index (channel m)) in
         case trigger_table (match m) of (a_value, a_value_last, a_mask, a_mask_last, a_edge) \<Rightarrow>
           \<lparr>vec_value = apply_action a_value c (vec_value tv),
            vec_value_last = apply_action a_value_last c (vec_value_last tv),
            vec_mask = apply_action a_mask c (vec_mask tv),
            vec_mask_last = apply_action a_mask_last c (vec_mask_last tv),
            vec_edge_mask = apply_action a_edge c (vec_edge_mask tv)\<rparr>))"

definition trigger_matches :: "sr_trigger option \<Rightarrow> sr_trigger_match list" where
  "trigger_matches session_trigger =
     (case session_trigger of None \<Rightarrow> [] | Some trigger \<Rightarrow> concat (map matches (stages trigger)))"

definition table_vectors :: "nat \<Rightarrow> sr_trigger option \<Rightarrow> trigger_vectors" where
  "table_vectors n session_trigger = foldl table_step (zero_vectors n) (trigger_matches session_trigger)"

text \<open>
  What the conversion needs of its input: the five vectors are arrays of
  \<open>data_width_bytes\<close> bytes, no channel index is negative, and an enabled channel has its
  bit in the vectors.
\<close>

definition vectors_sized :: "dev_context \<Rightarrow> bool" where
  "vectors_sized devc =
     (length (trigger_mask devc) = unat (data_width_bytes devc) \<and>
      length (trigger_value devc) = unat (data_width_bytes devc) \<and>
      length (trigger_mask_last devc) = unat (data_width_bytes devc) \<and>
      length (trigger_value_last devc) = unat (data_width_bytes devc) \<and>
      length (trigger_edge_mask devc) = unat (data_width_bytes devc))"

definition match_in_range :: "nat \<Rightarrow> sr_trigger_match \<Rightarrow> bool" where
  "match_in_range n m =
     (0 \<le> index (channel m) \<and> (\<not> enabled (channel m) \<or> index (channel m) < 8 * int n))"

subsection \<open>The trigger stream\<close>

text \<open>
  One vector on the wire: the three opcodes, then the bytes of the vector from the
  last to the first, each escaped. The five vectors in the order of the
  specification.
\<close>

definition trigger_frame :: "u8 \<Rightarrow> u8 \<Rightarrow> u8 list \<Rightarrow> u8 list" where
  "trigger_frame grp selector vec = [0xF0, grp, selector] @ concat (map escape_byte (rev vec))"

definition trigger_stream :: "dev_context \<Rightarrow> u8 list" where
  "trigger_stream devc =
     trigger_frame 0xF1 0xF3 (trigger_mask devc) @
     trigger_frame 0xF1 0xF7 (trigger_value devc) @
     trigger_frame 0xF9 0xFB (trigger_mask_last devc) @
     trigger_frame 0xF9 0xFF (trigger_value_last devc) @
     trigger_frame 0xF5 0xF6 (trigger_edge_mask devc)"

subsection \<open>The trigger delay\<close>

text \<open>
  The delay as the specification gives it: the floor of
  \<open>(limit_samples - 1) * capture_ratio / 100\<close>, computed exactly.
\<close>

definition exact_delay :: "nat \<Rightarrow> nat \<Rightarrow> nat" where
  "exact_delay limit ratio = ((limit - 1) * ratio) div 100"

subsection \<open>Values for examples\<close>

text \<open>
  \<open>ipdbg_la_dev_new\<close>: a zeroed context with the capture ratio 50 (the pointers are
  \<open>NULL\<close>: no vector, no sample buffer). A socket with nothing sent and nothing
  pending, and an allocator that grants every request with zeroed memory.
\<close>

definition ipdbg_la_dev_new :: dev_context where
  "ipdbg_la_dev_new =
     \<lparr>data_width = 0, data_width_bytes = 0, addr_width = 0, addr_width_bytes = 0,
      limit_samples = 0, limit_samples_max = 0, capture_ratio = 50,
      trigger_mask = [], trigger_value = [], trigger_mask_last = [], trigger_value_last = [],
      trigger_edge_mask = [], delay_value = 0, num_stages = 0, num_transfers = 0,
      raw_sample_buf = None, version = 0, features = 0, runlength_code_width = 0,
      cur_samplerate = 0\<rparr>"

definition quiet_socket :: ipdbg_la_tcp where
  "quiet_socket = \<lparr>tx = [], send_rc = [], rx = [], msgs = []\<rparr>"

definition roomy_heap :: glib_heap where
  "roomy_heap = \<lparr>can_alloc = (\<lambda>n. True), garbage = (\<lambda>k. 0)\<rparr>"

subsection \<open>Run-length expansion\<close>

text \<open>
  A raw sample is \<open>raw_bytes\<close> bytes of the raw buffer, read as one little-endian
  number. Its low \<open>w\<close> bits are the run-length field, and the repeat count is the
  field plus one. The bits above the field are the payload, of which the decoder keeps
  \<open>data_bytes\<close> bytes. The expansion repeats the payload of each raw sample as often as
  its repeat count says, in the order of the raw samples; \<open>repeat_sum k\<close> adds the
  repeat counts of the first \<open>k\<close> raw samples.
\<close>

definition le_nat :: "u8 list \<Rightarrow> nat" where
  "le_nat bs = foldr (\<lambda>b acc. unat b + 256 * acc) bs 0"

definition raw_sample :: "u8 list \<Rightarrow> nat \<Rightarrow> nat \<Rightarrow> u8 list" where
  "raw_sample buf raw_bytes i = take raw_bytes (drop (i * raw_bytes) buf)"

definition sample_repeat :: "nat \<Rightarrow> u8 list \<Rightarrow> nat" where
  "sample_repeat w s = le_nat s mod 2 ^ w + 1"

definition sample_payload :: "nat \<Rightarrow> nat \<Rightarrow> u8 list \<Rightarrow> u8 list" where
  "sample_payload w data_bytes s =
     map (\<lambda>b. word_of_nat (le_nat s div 2 ^ w div 256 ^ b mod 256)) [0..<data_bytes]"

definition expanded :: "nat \<Rightarrow> nat \<Rightarrow> nat \<Rightarrow> u8 list \<Rightarrow> nat list \<Rightarrow> u8 list" where
  "expanded w raw_bytes data_bytes buf samples =
     concat (map (\<lambda>i. concat (replicate (sample_repeat w (raw_sample buf raw_bytes i))
                                 (sample_payload w data_bytes (raw_sample buf raw_bytes i))))
               samples)"

definition repeat_sum :: "nat \<Rightarrow> nat \<Rightarrow> u8 list \<Rightarrow> nat \<Rightarrow> nat" where
  "repeat_sum w raw_bytes buf k =
     sum_list (map (\<lambda>i. sample_repeat w (raw_sample buf raw_bytes i)) [0..<k])"

text \<open>
  What the decoder needs of its input, with \<open>w\<close> the code width, \<open>dw\<close> the data width
  and \<open>n\<close> the number of raw samples: the code width is between 1 and 31; the widths in
  bytes are computed without wrapping; the raw buffer holds exactly \<open>n\<close> raw samples and
  \<open>n\<close> is not 0; when the code width is neither a multiple of 8 nor below 8, the bytes
  of the code and of the data together do not exceed the raw sample (so that the second
  source byte of the last payload byte lies in the raw sample); the data width is not
  0; the two blocks are available and their sizes, as well as the expanded size for the
  largest repeat counts, fit 64 bits.
\<close>

definition decodable :: "glib_heap \<Rightarrow> dev_context \<Rightarrow> u8 list \<Rightarrow> bool" where
  "decodable heap devc buf =
     (let w = unat (runlength_code_width devc); dw = unat (data_width devc);
          n = unat (limit_samples devc); raw_bytes = (dw + w + 7) div 8;
          data_bytes = (dw + 7) div 8; code_bytes = (w + 7) div 8
      in 0 < w \<and> w < 32 \<and> dw + w + 7 < 2 ^ 32 \<and>
         raw_sample_buf devc = Some buf \<and> length buf = n * raw_bytes \<and> 0 < n \<and>
         (w mod 8 = 0 \<or> w < 8 \<or> code_bytes + data_bytes \<le> raw_bytes) \<and>
         0 < dw \<and> 4 * n < 2 ^ 64 \<and> n * 2 ^ w * data_bytes < 2 ^ 64 \<and>
         can_alloc heap (4 * n) \<and>
         can_alloc heap (repeat_sum w raw_bytes buf n * data_bytes))"

section \<open>Verification\<close>

subsection \<open>The socket and the escaping\<close>

lemma tx_sr_log [simp]: "tx (sr_log m tcp) = tx tcp"
  by (simp add: sr_log_def)

lemma tx_tcp_send [simp]: "tx (snd (tcp_send tcp buf)) = tx tcp @ buf"
  by (simp add: tcp_send_def Let_def)

lemma tx_send_warn [simp]: "tx (send_warn m (tcp_send tcp buf)) = tx tcp @ buf"
  by (simp add: send_warn_def)

lemma send_escaping_one:
  "\<exists>tcp'. send_escaping tcp (b # bs) (Suc 0) = Some (SR_OK, tcp') \<and> tx tcp' = tx tcp @ escape_byte b"
  by (simp add: Let_def escape_byte_def CMD_ESCAPE_def CMD_RESET_def)

text \<open>
  Claim C3. For every byte sequence, \<open>send_escaping\<close> returns \<open>SR_OK\<close> and hands to the
  socket, after what was sent before, the input with every byte 0xEE or 0x55 replaced
  by 0x55 followed by that byte and every other byte unchanged, in the order of the
  input. This holds whatever \<open>send\<close> reports.
\<close>

theorem send_escaping_stream:
  "\<exists>tcp'. send_escaping tcp bs (length bs) = Some (SR_OK, tcp') \<and>
          tx tcp' = tx tcp @ escape_bytes bs"
proof (induction bs arbitrary: tcp)
  case Nil
  show ?case by (simp add: escape_bytes_def)
next
  case (Cons b bs)
  define tcp3 where "tcp3 =
    send_warn ''Couldn't send data'' (tcp_send
      (if b = CMD_ESCAPE
       then send_warn ''Couldn't send escape'' (tcp_send
         (if b = CMD_RESET then send_warn ''Couldn't send escape'' (tcp_send tcp [CMD_ESCAPE])
          else tcp) [CMD_ESCAPE])
       else (if b = CMD_RESET then send_warn ''Couldn't send escape'' (tcp_send tcp [CMD_ESCAPE])
          else tcp)) [b])"
  have step: "send_escaping tcp (b # bs) (length (b # bs)) = send_escaping tcp3 bs (length bs)"
    by (simp add: tcp3_def Let_def)
  have tx3: "tx tcp3 = tx tcp @ escape_byte b"
    by (simp add: tcp3_def escape_byte_def CMD_ESCAPE_def CMD_RESET_def)
  from Cons.IH [of tcp3] obtain tcp' where
    "send_escaping tcp3 bs (length bs) = Some (SR_OK, tcp')"
    "tx tcp' = tx tcp3 @ escape_bytes bs" by blast
  with step tx3 show ?case by (simp add: escape_bytes_def)
qed

theorem send_escaping_stream_witness:
  "\<exists>tcp'. send_escaping quiet_socket [0x01, 0xEE, 0x55, 0x02] 4 = Some (SR_OK, tcp') \<and>
          tx tcp' = [0x01, 0x55, 0xEE, 0x55, 0x55, 0x02]"
proof -
  have l: "length [0x01, 0xEE, 0x55, 0x02 :: u8] = 4" by simp
  have e: "escape_bytes [0x01, 0xEE, 0x55, 0x02] = [0x01, 0x55, 0xEE, 0x55, 0x55, 0x02]"
    by (simp add: escape_bytes_def escape_byte_def)
  have t: "tx quiet_socket = []" by (simp add: quiet_socket_def)
  show ?thesis
    using send_escaping_stream [of quiet_socket "[0x01, 0xEE, 0x55, 0x02]"]
    by (simp only: l e t append_Nil)
qed

subsection \<open>Sending the trigger\<close>

lemma send_vector_tx:
  "width \<le> length vec \<Longrightarrow> \<forall>i\<in>set is. i < width \<Longrightarrow>
   \<exists>tcp'. send_vector tcp vec width is = Some tcp' \<and>
          tx tcp' = tx tcp @ concat (map (\<lambda>i. escape_byte (vec ! (width - 1 - i))) is)"
proof (induction "is" arbitrary: tcp)
  case Nil
  show ?case by simp
next
  case (Cons i rest)
  have i: "i < width" "width - 1 - i < length vec" using Cons.prems by auto
  then obtain b bs where d: "drop (width - 1 - i) vec = b # bs" and b: "b = vec ! (width - 1 - i)"
    by (metis Cons_nth_drop_Suc)
  from send_escaping_one [of tcp b bs] obtain t1 where
    t1: "send_escaping tcp (b # bs) (Suc 0) = Some (SR_OK, t1)" "tx t1 = tx tcp @ escape_byte b"
    by blast
  from Cons.IH [of t1] Cons.prems obtain tcp' where
    "send_vector t1 vec width rest = Some tcp'"
    "tx tcp' = tx t1 @ concat (map (\<lambda>i. escape_byte (vec ! (width - 1 - i))) rest)"
    by auto
  with i d b t1 show ?case by simp
qed

lemma rev_by_index: "length vec = n \<Longrightarrow> map (\<lambda>i. vec ! (n - 1 - i)) [0..<n] = rev vec"
  by (auto simp: list_eq_iff_nth_eq rev_nth)

lemma send_vector_frame:
  assumes "length vec = n"
  shows "\<exists>tcp'. send_vector (send_opcodes tcp a b c) vec n [0..<n] = Some tcp' \<and>
          tx tcp' = tx tcp @ [a, b, c] @ concat (map escape_byte (rev vec))"
proof -
  have "map (\<lambda>i. escape_byte (vec ! (n - 1 - i))) [0..<n] =
        map escape_byte (map (\<lambda>i. vec ! (n - 1 - i)) [0..<n])"
    by simp
  then have "map (\<lambda>i. escape_byte (vec ! (n - 1 - i))) [0..<n] = map escape_byte (rev vec)"
    by (simp only: rev_by_index [OF assms])
  moreover have "tx (send_opcodes tcp a b c) = tx tcp @ [a, b, c]"
    by (simp add: send_opcodes_def)
  ultimately show ?thesis
    using send_vector_tx [of n vec "[0..<n]" "send_opcodes tcp a b c"] assms by auto
qed

text \<open>
  Claim C8. When the five vectors are arrays of \<open>data_width_bytes\<close> bytes,
  \<open>ipdbg_la_send_trigger\<close> returns \<open>SR_OK\<close> and hands to the socket the five frames in
  the order mask, value, mask_last, value_last, edge_mask: each frame is 0xF0, the
  group selector and the vector selector (0xF1 0xF3, 0xF1 0xF7, 0xF9 0xFB, 0xF9 0xFF,
  and 0xF5 0xF6 for the edge mask), then the bytes of the vector from index
  \<open>data_width_bytes - 1\<close> down to 0, each escaped on its own.
\<close>

theorem send_trigger_stream:
  assumes "vectors_sized devc"
  shows "\<exists>tcp'. ipdbg_la_send_trigger devc tcp = Some (SR_OK, tcp') \<and>
           tx tcp' = tx tcp @ trigger_stream devc"
proof -
  let ?n = "unat (data_width_bytes devc)"
  from assms have len: "length (trigger_mask devc) = ?n" "length (trigger_value devc) = ?n"
    "length (trigger_mask_last devc) = ?n" "length (trigger_value_last devc) = ?n"
    "length (trigger_edge_mask devc) = ?n"
    by (simp_all add: vectors_sized_def)
  from send_vector_frame [OF len(1)] obtain t1 where
    t1: "send_vector (send_opcodes tcp CMD_CFG_TRIGGER CMD_TRIG_MASKS CMD_TRIG_MASK)
           (trigger_mask devc) ?n [0..<?n] = Some t1"
        "tx t1 = tx tcp @ [CMD_CFG_TRIGGER, CMD_TRIG_MASKS, CMD_TRIG_MASK] @
           concat (map escape_byte (rev (trigger_mask devc)))" by blast
  from send_vector_frame [OF len(2)] obtain t2 where
    t2: "send_vector (send_opcodes t1 CMD_CFG_TRIGGER CMD_TRIG_MASKS CMD_TRIG_VALUE)
           (trigger_value devc) ?n [0..<?n] = Some t2"
        "tx t2 = tx t1 @ [CMD_CFG_TRIGGER, CMD_TRIG_MASKS, CMD_TRIG_VALUE] @
           concat (map escape_byte (rev (trigger_value devc)))" by blast
  from send_vector_frame [OF len(3)] obtain t3 where
    t3: "send_vector (send_opcodes t2 CMD_CFG_TRIGGER CMD_TRIG_MASKS_LAST CMD_TRIG_MASK_LAST)
           (trigger_mask_last devc) ?n [0..<?n] = Some t3"
        "tx t3 = tx t2 @ [CMD_CFG_TRIGGER, CMD_TRIG_MASKS_LAST, CMD_TRIG_MASK_LAST] @
           concat (map escape_byte (rev (trigger_mask_last devc)))" by blast
  from send_vector_frame [OF len(4)] obtain t4 where
    t4: "send_vector (send_opcodes t3 CMD_CFG_TRIGGER CMD_TRIG_MASKS_LAST CMD_TRIG_VALUE_LAST)
           (trigger_value_last devc) ?n [0..<?n] = Some t4"
        "tx t4 = tx t3 @ [CMD_CFG_TRIGGER, CMD_TRIG_MASKS_LAST, CMD_TRIG_VALUE_LAST] @
           concat (map escape_byte (rev (trigger_value_last devc)))" by blast
  from send_vector_frame [OF len(5)] obtain t5 where
    t5: "send_vector (send_opcodes t4 CMD_CFG_TRIGGER CMD_TRIG_SELECT_EDGE_MASK CMD_TRIG_SET_EDGE_MASK)
           (trigger_edge_mask devc) ?n [0..<?n] = Some t5"
        "tx t5 = tx t4 @ [CMD_CFG_TRIGGER, CMD_TRIG_SELECT_EDGE_MASK, CMD_TRIG_SET_EDGE_MASK] @
           concat (map escape_byte (rev (trigger_edge_mask devc)))" by blast
  have run: "ipdbg_la_send_trigger devc tcp = Some (SR_OK, t5)"
    by (simp add: ipdbg_la_send_trigger_def Let_def t1(1) t2(1) t3(1) t4(1) t5(1))
  have "tx t5 = tx tcp @ trigger_stream devc"
    by (simp add: t1(2) t2(2) t3(2) t4(2) t5(2) trigger_stream_def trigger_frame_def
        CMD_CFG_TRIGGER_def CMD_TRIG_MASKS_def CMD_TRIG_MASK_def CMD_TRIG_VALUE_def
        CMD_TRIG_MASKS_LAST_def CMD_TRIG_MASK_LAST_def CMD_TRIG_VALUE_LAST_def
        CMD_TRIG_SELECT_EDGE_MASK_def CMD_TRIG_SET_EDGE_MASK_def)
  with run show ?thesis by blast
qed

theorem send_trigger_stream_witness:
  "\<exists>tcp'. ipdbg_la_send_trigger
            (ipdbg_la_dev_new\<lparr>data_width := 16, data_width_bytes := 2,
               trigger_mask := [0x55, 0x01], trigger_value := [0xEE, 0x00],
               trigger_mask_last := [0x00, 0x00], trigger_value_last := [0x00, 0x00],
               trigger_edge_mask := [0x02, 0x80]\<rparr>) quiet_socket = Some (SR_OK, tcp') \<and>
          tx tcp' = [0xF0, 0xF1, 0xF3, 0x01, 0x55, 0x55,
                     0xF0, 0xF1, 0xF7, 0x00, 0x55, 0xEE,
                     0xF0, 0xF9, 0xFB, 0x00, 0x00,
                     0xF0, 0xF9, 0xFF, 0x00, 0x00,
                     0xF0, 0xF5, 0xF6, 0x80, 0x02]"
  using send_trigger_stream [of "ipdbg_la_dev_new\<lparr>data_width := 16, data_width_bytes := 2,
               trigger_mask := [0x55, 0x01], trigger_value := [0xEE, 0x00],
               trigger_mask_last := [0x00, 0x00], trigger_value_last := [0x00, 0x00],
               trigger_edge_mask := [0x02, 0x80]\<rparr>" quiet_socket]
  by (simp add: vectors_sized_def ipdbg_la_dev_new_def quiet_socket_def trigger_stream_def
      trigger_frame_def escape_byte_def)

subsection \<open>Trigger conversion\<close>

lemma modify_Some:
  "0 \<le> i \<Longrightarrow> nat i < length v \<Longrightarrow> modify v i f = Some (v[nat i := f (v ! nat i)])"
  by (simp add: modify_def)

lemma clear_vectors_fold:
  assumes "\<forall>i\<in>set is. i < length (trigger_mask devc) \<and> i < length (trigger_value devc) \<and>
             i < length (trigger_mask_last devc) \<and> i < length (trigger_value_last devc) \<and>
             i < length (trigger_edge_mask devc)"
  shows "clear_vectors is devc =
     Some (devc\<lparr>trigger_mask := fold (\<lambda>i v. v[i := 0]) is (trigger_mask devc),
                 trigger_value := fold (\<lambda>i v. v[i := 0]) is (trigger_value devc),
                 trigger_mask_last := fold (\<lambda>i v. v[i := 0]) is (trigger_mask_last devc),
                 trigger_value_last := fold (\<lambda>i v. v[i := 0]) is (trigger_value_last devc),
                 trigger_edge_mask := fold (\<lambda>i v. v[i := 0]) is (trigger_edge_mask devc)\<rparr>)"
  using assms
proof (induction "is" arbitrary: devc)
  case Nil
  show ?case by simp
next
  case (Cons i rest)
  let ?d = "devc\<lparr>trigger_mask := (trigger_mask devc)[i := 0],
                   trigger_value := (trigger_value devc)[i := 0],
                   trigger_mask_last := (trigger_mask_last devc)[i := 0],
                   trigger_value_last := (trigger_value_last devc)[i := 0],
                   trigger_edge_mask := (trigger_edge_mask devc)[i := 0]\<rparr>"
  have step: "clear_vectors (i # rest) devc = clear_vectors rest ?d"
    using Cons.prems by (simp add: modify_Some)
  have "\<forall>i\<in>set rest. i < length (trigger_mask ?d) \<and> i < length (trigger_value ?d) \<and>
             i < length (trigger_mask_last ?d) \<and> i < length (trigger_value_last ?d) \<and>
             i < length (trigger_edge_mask ?d)"
    using Cons.prems by simp
  from Cons.IH [OF this] step show ?case by simp
qed

lemma fold_zero_upt:
  "n \<le> length v \<Longrightarrow> fold (\<lambda>i v. v[i := 0]) [0..<n] v = replicate n (0::u8) @ drop n v"
proof (induction n)
  case 0
  show ?case by simp
next
  case (Suc n)
  then have "fold (\<lambda>i v. v[i := 0]) [0..<Suc n] v = (replicate n 0 @ drop n v)[n := 0]"
    by simp
  also have "\<dots> = replicate n 0 @ (drop n v)[0 := 0]"
    by (simp add: list_update_append)
  also have "drop n v = v ! n # drop (Suc n) v"
    using Suc.prems by (simp add: Cons_nth_drop_Suc)
  finally show ?case by (simp add: replicate_append_same)
qed

lemma c_quot_nonneg: "0 \<le> a \<Longrightarrow> c_quot a 8 = a div 8"
  by (cases "a = 0") (simp_all add: c_quot_def)

lemma c_rem_nonneg: "0 \<le> a \<Longrightarrow> c_rem a 8 = a mod 8"
  by (simp add: c_rem_def c_quot_nonneg minus_mult_div_eq_mod)

lemma or_match_bit: "(x::u8) OR 2 ^ n = set_bit n x"
  by (simp add: set_bit_eq_or)

lemma and_not_match_bit: "(x::u8) AND NOT (2 ^ n) = unset_bit n x"
  by (simp add: unset_bit_eq_and_not)

lemma match_step_table:
  assumes "vectors_sized devc" "match_in_range (unat (data_width_bytes devc)) m"
  shows "\<exists>devc'. trigger_match_step devc m = Some devc' \<and>
           vectors_of devc' = table_step (vectors_of devc) m \<and>
           vectors_sized devc' \<and> data_width_bytes devc' = data_width_bytes devc"
proof (cases "enabled (channel m)")
  case False
  with assms show ?thesis
    by (simp add: trigger_match_step_def Let_def table_step_def match_in_range_def c_rem_nonneg)
next
  case True
  let ?a = "index (channel m)"
  from assms True have a: "0 \<le> ?a" "?a < 8 * int (unat (data_width_bytes devc))"
    by (simp_all add: match_in_range_def)
  have q: "c_quot ?a 8 = ?a div 8" and r: "c_rem ?a 8 = ?a mod 8"
    using a by (simp_all add: c_quot_nonneg c_rem_nonneg)
  have nq: "nat (?a div 8) = nat ?a div 8" and nr: "nat (?a mod 8) = nat ?a mod 8"
    using a by (simp_all add: nat_div_distrib nat_mod_distrib)
  have inb: "nat ?a div 8 < unat (data_width_bytes devc)" using a by linarith
  have ge: "0 \<le> ?a div 8" "\<not> ?a mod 8 < 0" using a by simp_all
  have len: "length (trigger_mask devc) = unat (data_width_bytes devc)"
    "length (trigger_value devc) = unat (data_width_bytes devc)"
    "length (trigger_mask_last devc) = unat (data_width_bytes devc)"
    "length (trigger_value_last devc) = unat (data_width_bytes devc)"
    "length (trigger_edge_mask devc) = unat (data_width_bytes devc)"
    using assms(1) by (simp_all add: vectors_sized_def)
  show ?thesis
    using True inb ge
    by (cases "match m")
       (simp_all add: trigger_match_step_def Let_def q r nq nr modify_Some len table_step_def
          vectors_of_def apply_action_def or_match_bit and_not_match_bit vectors_sized_def)
qed

lemma convert_matches_table:
  assumes "vectors_sized devc" "\<forall>m\<in>set ms. match_in_range (unat (data_width_bytes devc)) m"
  shows "\<exists>devc'. convert_matches devc ms = Some devc' \<and>
           vectors_of devc' = foldl table_step (vectors_of devc) ms \<and>
           vectors_sized devc' \<and> data_width_bytes devc' = data_width_bytes devc"
  using assms
proof (induction ms arbitrary: devc)
  case Nil
  then show ?case by simp
next
  case (Cons m ms)
  from match_step_table [of devc m] Cons.prems obtain d1 where
    d1: "trigger_match_step devc m = Some d1" "vectors_of d1 = table_step (vectors_of devc) m"
        "vectors_sized d1" "data_width_bytes d1 = data_width_bytes devc" by auto
  from Cons.IH [of d1] d1 Cons.prems obtain d2 where
    "convert_matches d1 ms = Some d2" "vectors_of d2 = foldl table_step (vectors_of d1) ms"
    "vectors_sized d2" "data_width_bytes d2 = data_width_bytes d1" by auto
  with d1 show ?case by simp
qed

lemma convert_stages_table:
  assumes "vectors_sized devc"
    "\<forall>m\<in>set (concat (map matches ss)). match_in_range (unat (data_width_bytes devc)) m"
  shows "\<exists>devc'. convert_stages devc ss = Some devc' \<and>
           vectors_of devc' = foldl table_step (vectors_of devc) (concat (map matches ss)) \<and>
           vectors_sized devc' \<and> data_width_bytes devc' = data_width_bytes devc"
  using assms
proof (induction ss arbitrary: devc)
  case Nil
  then show ?case by simp
next
  case (Cons s ss)
  from convert_matches_table [of devc "matches s"] Cons.prems obtain d1 where
    d1: "convert_matches devc (matches s) = Some d1"
        "vectors_of d1 = foldl table_step (vectors_of devc) (matches s)"
        "vectors_sized d1" "data_width_bytes d1 = data_width_bytes devc" by auto
  from Cons.IH [of d1] d1 Cons.prems obtain d2 where
    "convert_stages d1 ss = Some d2"
    "vectors_of d2 = foldl table_step (vectors_of d1) (concat (map matches ss))"
    "vectors_sized d2" "data_width_bytes d2 = data_width_bytes d1" by auto
  with d1 show ?case by simp
qed

text \<open>
  Claim C4. When the five vectors are arrays of \<open>data_width_bytes\<close> bytes, no channel
  index is negative and every enabled channel has its bit in the vectors,
  \<open>ipdbg_la_convert_trigger\<close> returns \<open>SR_OK\<close> with the vectors that result from
  clearing all five and then applying the table to the matches in their order:
  a match on a disabled channel changes nothing, a match on the enabled channel \<open>c\<close>
  sets, clears or keeps bit \<open>c mod 8\<close> of byte \<open>c div 8\<close> in each vector as the row of
  its kind says. Without a trigger all five vectors are zero.
\<close>

theorem convert_trigger_table:
  assumes "vectors_sized devc"
    "\<forall>m\<in>set (trigger_matches session_trigger). match_in_range (unat (data_width_bytes devc)) m"
  shows "\<exists>devc'. ipdbg_la_convert_trigger session_trigger devc = Some (SR_OK, devc') \<and>
           vectors_of devc' = table_vectors (unat (data_width_bytes devc)) session_trigger"
proof -
  let ?n = "unat (data_width_bytes devc)"
  let ?d0 = "devc\<lparr>num_stages := 0, num_transfers := 0, raw_sample_buf := None\<rparr>"
  from assms(1) have len: "length (trigger_mask devc) = ?n" "length (trigger_value devc) = ?n"
    "length (trigger_mask_last devc) = ?n" "length (trigger_value_last devc) = ?n"
    "length (trigger_edge_mask devc) = ?n"
    by (simp_all add: vectors_sized_def)
  define d1 where "d1 = ?d0\<lparr>trigger_mask := replicate ?n 0, trigger_value := replicate ?n 0,
      trigger_mask_last := replicate ?n 0, trigger_value_last := replicate ?n 0,
      trigger_edge_mask := replicate ?n 0\<rparr>"
  have clr: "clear_vectors [0..<?n] ?d0 = Some d1"
    by (subst clear_vectors_fold) (simp_all add: len fold_zero_upt d1_def)
  have d1: "vectors_sized d1" "data_width_bytes d1 = data_width_bytes devc"
    "vectors_of d1 = zero_vectors ?n"
    by (simp_all add: d1_def vectors_sized_def vectors_of_def zero_vectors_def)
  show ?thesis
  proof (cases session_trigger)
    case None
    with clr d1 show ?thesis
      by (simp add: ipdbg_la_convert_trigger_def table_vectors_def trigger_matches_def)
  next
    case (Some trigger)
    with assms(2) d1 have "\<forall>m\<in>set (concat (map matches (stages trigger))).
        match_in_range (unat (data_width_bytes d1)) m"
      by (simp add: trigger_matches_def)
    from convert_stages_table [OF d1(1) this] obtain d2 where
      "convert_stages d1 (stages trigger) = Some d2"
      "vectors_of d2 = foldl table_step (vectors_of d1) (concat (map matches (stages trigger)))"
      by blast
    with Some clr d1 show ?thesis
      by (simp add: ipdbg_la_convert_trigger_def table_vectors_def trigger_matches_def)
  qed
qed

theorem convert_trigger_table_witness:
  "\<exists>devc'. ipdbg_la_convert_trigger
            (Some \<lparr>stages = [\<lparr>matches =
               [\<lparr>channel = \<lparr>index = 5, enabled = True\<rparr>, match = SR_TRIGGER_RISING\<rparr>,
                \<lparr>channel = \<lparr>index = 2, enabled = False\<rparr>, match = SR_TRIGGER_ONE\<rparr>]\<rparr>]\<rparr>)
            (ipdbg_la_dev_new\<lparr>data_width := 8, data_width_bytes := 1,
               trigger_mask := [0xFF], trigger_value := [0xFF], trigger_mask_last := [0xFF],
               trigger_value_last := [0xFF], trigger_edge_mask := [0xFF]\<rparr>) = Some (SR_OK, devc') \<and>
           vectors_of devc' =
             \<lparr>vec_value = [0x20], vec_value_last = [0x00], vec_mask = [0x20],
              vec_mask_last = [0x20], vec_edge_mask = [0x00]\<rparr>"
  using convert_trigger_table [of "ipdbg_la_dev_new\<lparr>data_width := 8, data_width_bytes := 1,
               trigger_mask := [0xFF], trigger_value := [0xFF], trigger_mask_last := [0xFF],
               trigger_value_last := [0xFF], trigger_edge_mask := [0xFF]\<rparr>"
            "Some \<lparr>stages = [\<lparr>matches =
               [\<lparr>channel = \<lparr>index = 5, enabled = True\<rparr>, match = SR_TRIGGER_RISING\<rparr>,
                \<lparr>channel = \<lparr>index = 2, enabled = False\<rparr>, match = SR_TRIGGER_ONE\<rparr>]\<rparr>]\<rparr>"]
  by (simp add: vectors_sized_def ipdbg_la_dev_new_def trigger_matches_def match_in_range_def
      table_vectors_def zero_vectors_def table_step_def apply_action_def set_bit_eq_or
      unset_bit_eq_and_not)

subsection \<open>Run-length decoding without a code\<close>

text \<open>
  Claim C6. When \<open>runlength_code_width\<close> is 0, \<open>ipdbg_la_runlength_decode\<close> returns true,
  stores the configured delay value and the configured \<open>limit_samples\<close>, and leaves
  the device context, and with it the raw sample buffer, as it was.
\<close>

theorem decode_passthrough:
  "runlength_code_width devc = 0 \<Longrightarrow>
   ipdbg_la_runlength_decode heap devc = Some (True, devc, delay_value devc, limit_samples devc)"
  by (simp add: ipdbg_la_runlength_decode_def)

theorem decode_passthrough_witness:
  "runlength_code_width (ipdbg_la_dev_new\<lparr>limit_samples := 4, delay_value := 1,
      raw_sample_buf := Some [1, 2, 3, 4]\<rparr>) = 0 \<and>
   ipdbg_la_runlength_decode roomy_heap
     (ipdbg_la_dev_new\<lparr>limit_samples := 4, delay_value := 1, raw_sample_buf := Some [1, 2, 3, 4]\<rparr>) =
   Some (True, ipdbg_la_dev_new\<lparr>limit_samples := 4, delay_value := 1,
      raw_sample_buf := Some [1, 2, 3, 4]\<rparr>, 1, 4)"
  using decode_passthrough [of "ipdbg_la_dev_new\<lparr>limit_samples := 4, delay_value := 1,
      raw_sample_buf := Some [1, 2, 3, 4]\<rparr>" roomy_heap]
  by (simp add: ipdbg_la_dev_new_def)

subsection \<open>Identity request\<close>

lemma receive_blocking_done:
  "bufsize \<le> length got \<Longrightarrow> tcp_receive_blocking_from tcp bufsize got ec = (got, tcp)"
  by (subst tcp_receive_blocking_from.simps) simp

lemma receive_blocking_data:
  assumes "0 < n" "n \<le> length d" "rx tcp = Rx_data d # es"
  shows "tcp_receive_blocking tcp n =
           (take n d, tcp\<lparr>rx := (if length d \<le> n then es else Rx_data (drop n d) # es)\<rparr>)"
proof -
  have r: "ipdbg_la_tcp_receive tcp n =
      (int n, take n d, tcp\<lparr>rx := (if length d \<le> n then es else Rx_data (drop n d) # es)\<rparr>)"
    using assms by (simp add: ipdbg_la_tcp_receive_def data_available_def min_def)
  show ?thesis
    unfolding tcp_receive_blocking_def
    apply (subst tcp_receive_blocking_from.simps)
    using assms by (simp add: r Let_def receive_blocking_done)
qed

text \<open>
  Claim C1 says that four identity bytes that are neither \<open>"IDBG"\<close> nor \<open>"idbg"\<close>
  make \<open>ipdbg_la_request_id\<close> return \<open>SR_ERR\<close> without a version. The test of the code,
  \<open>!cmp_IDBG && !cmp_idbg\<close>, holds only for bytes equal to both tokens: for the reply
  \<open>"XXXX"\<close> the function returns \<open>SR_OK\<close> and stores version 1.
\<close>

theorem request_id_accepts_XXXX:
  "ipdbg_la_request_id (quiet_socket\<lparr>rx := [Rx_data [0x58, 0x58, 0x58, 0x58]]\<rparr>) =
     Some (SR_OK, Some 1, quiet_socket\<lparr>tx := [0xBB]\<rparr>)"
proof -
  let ?t1 = "send_warn ''Couldn't send ID request''
               (tcp_send (quiet_socket\<lparr>rx := [Rx_data [0x58, 0x58, 0x58, 0x58]]\<rparr>) [CMD_GET_LA_ID])"
  have t1: "?t1 = quiet_socket\<lparr>tx := [0xBB], rx := [Rx_data [0x58, 0x58, 0x58, 0x58]]\<rparr>"
    by (simp add: quiet_socket_def tcp_send_def send_warn_def CMD_GET_LA_ID_def)
  have rcv: "tcp_receive_blocking
        (quiet_socket\<lparr>tx := [0xBB], rx := [Rx_data [0x58, 0x58, 0x58, 0x58]]\<rparr>) 4 =
      ([0x58, 0x58, 0x58, 0x58], quiet_socket\<lparr>tx := [0xBB]\<rparr>)"
    by (subst receive_blocking_data [where d = "[0x58, 0x58, 0x58, 0x58]" and es = "[]"])
       (simp_all add: quiet_socket_def)
  have c1: "strncmp [0x58, 0x58, 0x58, 0x58] str_IDBG 4 = Some 15"
    by code_simp
  have c2: "strncmp [0x58, 0x58, 0x58, 0x58] str_idbg 4 = Some (-17)"
    by code_simp
  show ?thesis
    by (simp add: ipdbg_la_request_id_def Let_def t1 rcv c1 c2)
qed

subsection \<open>Sample rate\<close>

text \<open>
  Claim C9 says that the eight bytes received are assembled little-endian into the
  64 bit sample rate. The code shifts the bytes as \<open>int\<close>: \<open>buf[4] << 32\<close> and the three
  shifts after it are by at least the width of \<open>int\<close>, which C leaves undefined. For the
  bytes of the rate \<open>2 ^ 32\<close> the function has no defined result.
\<close>

theorem set_samplerate_undefined:
  "ipdbg_la_set_samplerate (ipdbg_la_dev_new\<lparr>features := 4\<rparr>)
     (quiet_socket\<lparr>rx := [Rx_data [0, 0, 0, 0, 1, 0, 0, 0]]\<rparr>) = None"
proof -
  let ?s = "tcp_send (quiet_socket\<lparr>rx := [Rx_data [0, 0, 0, 0, 1, 0, 0, 0]]\<rparr>) [CMD_GET_SAMPLE_RATE]"
  have s: "?s = (SR_OK, quiet_socket\<lparr>tx := [0x80], rx := [Rx_data [0, 0, 0, 0, 1, 0, 0, 0]]\<rparr>)"
    by (simp add: quiet_socket_def tcp_send_def CMD_GET_SAMPLE_RATE_def)
  have rcv: "tcp_receive_blocking
        (quiet_socket\<lparr>tx := [0x80], rx := [Rx_data [0, 0, 0, 0, 1, 0, 0, 0]]\<rparr>) 8 =
      ([0, 0, 0, 0, 1, 0, 0, 0], quiet_socket\<lparr>tx := [0x80]\<rparr>)"
    by (subst receive_blocking_data [where d = "[0, 0, 0, 0, 1, 0, 0, 0]" and es = "[]"])
       (simp_all add: quiet_socket_def)
  have sh: "shifted_byte 1 32 0x000000FF00000000 = None"
    by (simp add: shifted_byte_def c_int_shl_def)
  have f: "features (ipdbg_la_dev_new\<lparr>features := 4\<rparr>) AND FEATURE_AUGMENTER_SAMPLERATE_ENABLED \<noteq> 0"
    by (simp add: FEATURE_AUGMENTER_SAMPLERATE_ENABLED_def)
  show ?thesis
    using f by (simp add: ipdbg_la_set_samplerate_def Let_def s rcv sh shifted_byte_def c_int_shl_def)
qed

subsection \<open>The trigger delay\<close>

lemmas double_eval = nearest_double_def scale_def round_half_even_def Let_def

lemma bit_length_values:
  "bit_length (Suc 0) = Suc 0" "bit_length 29 = 5" "bit_length 50 = 6" "bit_length 100 = 7"
  "bit_length 999 = 10"
  "bit_length 8162774324609024 = 53" "bit_length 28147497671065600 = 55"
  "bit_length 36761867406618650110129602560000 = 105"
  "bit_length 1267650600228229401496703205376 = 101"
  "bit_length 70298375433486336 = 56" "bit_length 7036874417766400 = 53"
  "bit_length 39574467175875037472400133324800 = 105"
  "bit_length 79228162514264337593543950336 = 97"
  by (simp_all add: bit_length.simps)

lemma double_of_nat_values:
  "double_of_nat 29 = \<lparr>mant = 8162774324609024, expo = - 48\<rparr>"
  "double_of_nat 50 = \<lparr>mant = 7036874417766400, expo = - 47\<rparr>"
  "double_of_nat 100 = \<lparr>mant = 7036874417766400, expo = - 46\<rparr>"
  "double_of_nat 999 = \<lparr>mant = 8787296929185792, expo = - 43\<rparr>"
  by (simp_all add: double_of_nat_def double_eval bit_length_values)

lemma delay_30_100:
  "u64_of_double (double_mul (double_div (double_of_nat 29) (double_of_nat 100)) (double_of_nat 100))
     = Some 28"
proof -
  have q: "double_div (double_of_nat 29) (double_of_nat 100) = \<lparr>mant = 5224175567749775, expo = - 54\<rparr>"
    by (simp add: double_of_nat_values double_div_def double_eval bit_length_values)
  have m: "double_mul \<lparr>mant = 5224175567749775, expo = - 54\<rparr> (double_of_nat 100)
             = \<lparr>mant = 8162774324609023, expo = - 48\<rparr>"
    by (simp add: double_of_nat_values double_mul_def double_eval bit_length_values)
  have t: "u64_of_double \<lparr>mant = 8162774324609023, expo = - 48\<rparr> = Some 28"
    by (simp add: u64_of_double_def scale_def)
  show ?thesis
    by (simp only: q m t)
qed

lemma delay_1000_50:
  "u64_of_double (double_mul (double_div (double_of_nat 999) (double_of_nat 100)) (double_of_nat 50))
     = Some 499"
proof -
  have q: "double_div (double_of_nat 999) (double_of_nat 100) = \<lparr>mant = 5623870034678907, expo = - 49\<rparr>"
    by (simp add: double_of_nat_values double_div_def double_eval bit_length_values)
  have m: "double_mul \<lparr>mant = 5623870034678907, expo = - 49\<rparr> (double_of_nat 50)
             = \<lparr>mant = 8787296929185792, expo = - 44\<rparr>"
    by (simp add: double_of_nat_values double_mul_def double_eval bit_length_values)
  have t: "u64_of_double \<lparr>mant = 8787296929185792, expo = - 44\<rparr> = Some 499"
    by (simp add: u64_of_double_def scale_def)
  show ?thesis
    by (simp only: q m t)
qed

lemma send_delay_result:
  assumes dv: "u64_of_double
            (double_mul
               (double_div (double_of_nat (unat (limit_samples devc - 1))) (double_of_nat 100))
               (double_of_nat (unat (capture_ratio devc)))) = Some dv"
    and n: "unat (addr_width_bytes devc) = n" "n \<le> 4"
  shows "\<exists>tcp'. ipdbg_la_send_delay devc tcp = Some (SR_OK, devc\<lparr>delay_value := dv\<rparr>, tcp') \<and>
           tx tcp' = tx tcp @ [0x0F, 0x1F] @
             concat (map escape_byte (rev (take n
               [ucast (dv AND 0xff), ucast (drop_bit 8 dv AND 0xff),
                ucast (drop_bit 16 dv AND 0xff), ucast (drop_bit 24 dv AND 0xff)])))"
proof -
  let ?buf = "[ucast (dv AND 0xff), ucast (drop_bit 8 dv AND 0xff),
               ucast (drop_bit 16 dv AND 0xff), ucast (drop_bit 24 dv AND 0xff)] :: u8 list"
  let ?t2 = "snd (tcp_send (snd (tcp_send tcp [CMD_CFG_LA])) [CMD_LA_DELAY])"
  have t2: "tx ?t2 = tx tcp @ [0x0F, 0x1F]"
    by (simp add: CMD_CFG_LA_def CMD_LA_DELAY_def)
  from send_vector_tx [of n ?buf "[0..<n]" ?t2] n obtain tcp' where
    s: "send_vector ?t2 ?buf n [0..<n] = Some tcp'"
    and tx: "tx tcp' = tx ?t2 @ concat (map (\<lambda>i. escape_byte (?buf ! (n - 1 - i))) [0..<n])"
    by auto
  have "map (\<lambda>i. ?buf ! (n - 1 - i)) [0..<n] = map (\<lambda>i. take n ?buf ! (n - 1 - i)) [0..<n]"
    by simp
  also have "\<dots> = rev (take n ?buf)"
    using n by (intro rev_by_index) simp
  finally have r: "map (\<lambda>i. ?buf ! (n - 1 - i)) [0..<n] = rev (take n ?buf)" .
  have "map (\<lambda>i. escape_byte (?buf ! (n - 1 - i))) [0..<n] =
        map escape_byte (map (\<lambda>i. ?buf ! (n - 1 - i)) [0..<n])"
    by simp
  then have e: "map (\<lambda>i. escape_byte (?buf ! (n - 1 - i))) [0..<n] = map escape_byte (rev (take n ?buf))"
    by (simp only: r)
  have "ipdbg_la_send_delay devc tcp = Some (SR_OK, devc\<lparr>delay_value := dv\<rparr>, tcp')"
    using s by (simp add: ipdbg_la_send_delay_def dv n Let_def)
  moreover have "tx tcp' = tx tcp @ [0x0F, 0x1F] @ concat (map escape_byte (rev (take n ?buf)))"
    unfolding tx e t2 by simp
  ultimately show ?thesis
    by blast
qed

text \<open>
  Claim C7 says that for every \<open>limit_samples \<ge> 1\<close> and every capture ratio from 0 to 100
  the delay is the floor of \<open>(limit_samples - 1) * capture_ratio / 100\<close>, computed
  exactly. The code divides by \<open>100.0\<close> first, in binary64, and the quotient is rounded:
  for 30 samples and the ratio 100 the quotient is a little less than 0.29, the product
  a little less than 29, and the delay stored and sent is 28 where the exact value is 29.
\<close>

theorem send_delay_rounds_below:
  "\<exists>tcp'. ipdbg_la_send_delay
            (ipdbg_la_dev_new\<lparr>addr_width_bytes := 2, limit_samples := 30, capture_ratio := 100\<rparr>)
            quiet_socket =
          Some (SR_OK,
                ipdbg_la_dev_new\<lparr>addr_width_bytes := 2, limit_samples := 30,
                                  capture_ratio := 100, delay_value := 28\<rparr>,
                tcp') \<and>
          tx tcp' = [0x0F, 0x1F, 0x00, 0x1C] \<and> exact_delay 30 100 = 29"
proof -
  define D where
    "D = ipdbg_la_dev_new\<lparr>addr_width_bytes := 2, limit_samples := 30, capture_ratio := 100\<rparr>"
  have f: "unat (limit_samples D - 1) = 29" "unat (capture_ratio D) = 100"
    "unat (addr_width_bytes D) = 2"
    by (simp_all add: D_def ipdbg_la_dev_new_def)
  have dv: "u64_of_double
            (double_mul
               (double_div (double_of_nat (unat (limit_samples D - 1))) (double_of_nat 100))
               (double_of_nat (unat (capture_ratio D)))) = Some 28"
    by (simp only: f delay_30_100)
  have le: "(2::nat) \<le> 4"
    by simp
  have bytes: "take 2 [ucast ((28::u64) AND 0xff), ucast (drop_bit 8 (28::u64) AND 0xff),
                ucast (drop_bit 16 (28::u64) AND 0xff), ucast (drop_bit 24 (28::u64) AND 0xff)]
               = [0x1C, 0x00 :: u8]"
  proof -
    have "take 2 [a, b, c, d] = [a, b]" for a b c d :: u8
      by (simp add: numeral_2_eq_2)
    then show ?thesis
      by simp
  qed
  from send_delay_result [OF dv f(3) le, of quiet_socket] obtain tcp' where
    r: "ipdbg_la_send_delay D quiet_socket = Some (SR_OK, D\<lparr>delay_value := 28\<rparr>, tcp')"
    and tx: "tx tcp' = tx quiet_socket @ [0x0F, 0x1F] @
             concat (map escape_byte (rev (take 2
               [ucast ((28::u64) AND 0xff), ucast (drop_bit 8 (28::u64) AND 0xff),
                ucast (drop_bit 16 (28::u64) AND 0xff), ucast (drop_bit 24 (28::u64) AND 0xff)])))"
    by blast
  have "tx tcp' = [0x0F, 0x1F, 0x00, 0x1C]"
    unfolding tx bytes by (simp add: quiet_socket_def escape_byte_def CMD_ESCAPE_def CMD_RESET_def)
  moreover have "exact_delay 30 100 = 29"
    by (simp add: exact_delay_def)
  ultimately show ?thesis
    using r unfolding D_def by blast
qed

subsection \<open>Run-length decoding with a code\<close>

lemma le_nat_Nil [simp]: "le_nat [] = 0"
  by (simp add: le_nat_def)

lemma le_nat_Cons [simp]: "le_nat (b # bs) = unat b + 256 * le_nat bs"
  by (simp add: le_nat_def)

lemma le_nat_append: "le_nat (xs @ ys) = le_nat xs + 256 ^ length xs * le_nat ys"
  by (induction xs) (simp_all add: algebra_simps)

lemma le_nat_bound: "le_nat xs < 256 ^ length xs"
proof (induction xs)
  case Nil
  show ?case by simp
next
  case (Cons b bs)
  have "unat b < 256" using unsigned_less [of b] by simp
  with Cons show ?case by simp
qed

lemma le_nat_take: "le_nat (take k xs) = le_nat xs mod 256 ^ k"
proof (cases "k \<le> length xs")
  case True
  have "le_nat xs = le_nat (take k xs) + 256 ^ k * le_nat (drop k xs)"
    using le_nat_append [of "take k xs" "drop k xs"] True by simp
  moreover have "le_nat (take k xs) < 256 ^ k"
    using le_nat_bound [of "take k xs"] True by simp
  ultimately show ?thesis by simp
next
  case False
  then have "le_nat xs < 256 ^ k"
    using le_nat_bound [of xs] power_increasing [of "length xs" k "256::nat"]
    by (simp add: order_less_le_trans)
  with False show ?thesis by simp
qed

lemma le_nat_drop: "le_nat (drop k xs) = le_nat xs div 256 ^ k"
proof (cases "k \<le> length xs")
  case True
  have "le_nat xs = le_nat (take k xs) + 256 ^ k * le_nat (drop k xs)"
    using le_nat_append [of "take k xs" "drop k xs"] True by simp
  moreover have "le_nat (take k xs) < 256 ^ k"
    using le_nat_bound [of "take k xs"] True by simp
  ultimately show ?thesis by simp
next
  case False
  then have "le_nat xs < 256 ^ k"
    using le_nat_bound [of xs] power_increasing [of "length xs" k "256::nat"]
    by (simp add: order_less_le_trans)
  with False show ?thesis by simp
qed

lemma le_nat_nth: "k < length xs \<Longrightarrow> le_nat xs div 256 ^ k mod 256 = unat (xs ! k)"
proof -
  assume k: "k < length xs"
  then have "drop k xs = xs ! k # drop (Suc k) xs" by (simp add: Cons_nth_drop_Suc)
  then have "le_nat (drop k xs) = unat (xs ! k) + 256 * le_nat (drop (Suc k) xs)" by simp
  moreover have "unat (xs ! k) < 256" using unsigned_less [of "xs ! k"] by simp
  ultimately show ?thesis by (simp add: le_nat_drop [symmetric])
qed

lemma or_shifted_byte:
  fixes r :: u32 and b :: u8
  assumes "unat r < 2 ^ (8 * j)" "j < 4"
  shows "unat (r OR push_bit (8 * j) (ucast b)) = unat r + 2 ^ (8 * j) * unat b"
proof -
  let ?p = "push_bit (8 * j) (ucast b) :: u32"
  have b: "unat b < 2 ^ 8" using unsigned_less [of b] by simp
  have "unat b * 2 ^ (8 * j) < 2 ^ 8 * 2 ^ (8 * j)"
    using b by (simp add: mult_less_mono1 del: power_Suc)
  also have "(2::nat) ^ 8 * 2 ^ (8 * j) = 2 ^ (8 + 8 * j)" by (simp add: power_add)
  also have "\<dots> \<le> 2 ^ 32" using assms(2) by (intro power_increasing) simp_all
  finally have small: "unat b * 2 ^ (8 * j) < 2 ^ 32" .
  have ub: "unat (ucast b :: u32) = unat b"
    using b by (simp add: unsigned_ucast_eq take_bit_nat_eq_self)
  have "unat ?p = take_bit 32 (push_bit (8 * j) (unat (ucast b :: u32)))"
    by (subst unsigned_push_bit_eq) simp
  also have "\<dots> = take_bit 32 (unat b * 2 ^ (8 * j))"
    by (simp only: ub push_bit_eq_mult)
  also have "\<dots> = unat b * 2 ^ (8 * j)"
    using small by (simp only: take_bit_nat_eq_self)
  finally have up: "unat ?p = 2 ^ (8 * j) * unat b" by (simp only: mult.commute)
  have "unat (take_bit (8 * j) r) = unat r"
    using assms(1) by (simp add: unsigned_take_bit_eq take_bit_nat_eq_self)
  then have r: "take_bit (8 * j) r = r" by (simp add: word_unat_eq_iff)
  have "r AND ?p = take_bit (8 * j) r AND ?p" by (simp add: r)
  also have "\<dots> = 0" by (rule bit_eqI) (auto simp: bit_simps)
  finally have "r OR ?p = r + ?p" by (simp add: disjunctive_add_eq_or)
  moreover have "unat r + unat ?p < 2 ^ 32"
  proof -
    have "unat r + unat b * 2 ^ (8 * j) < 2 ^ (8 * j) + unat b * 2 ^ (8 * j)"
      using assms(1) by simp
    also have "\<dots> = (unat b + 1) * 2 ^ (8 * j)" by (simp add: algebra_simps)
    also have "\<dots> \<le> 2 ^ 8 * 2 ^ (8 * j)" using b by (intro mult_le_mono1) simp
    also have "(2::nat) ^ 8 * 2 ^ (8 * j) = 2 ^ (8 + 8 * j)" by (simp add: power_add)
    also have "\<dots> \<le> 2 ^ 32" using assms(2) by (intro power_increasing) simp_all
    finally show ?thesis unfolding up by (simp add: mult.commute)
  qed
  ultimately have "r OR ?p = r + ?p" and lt: "unat r + unat ?p < 2 ^ LENGTH(32)"
    by simp_all
  moreover have "unat (r + ?p) = unat r + unat ?p"
    by (rule unat_add_lem [THEN iffD1]) (rule lt)
  ultimately have "unat (r OR ?p) = unat r + unat ?p" by (simp only:)
  then show ?thesis unfolding up .
qed


lemma gather_repeat_le:
  assumes "m \<le> 4" "base + m \<le> length buf" "j \<le> m"
    "unat r = le_nat (take j (drop base buf))"
  shows "\<exists>r'. gather_repeat buf base [j..<m] r = Some r' \<and>
           unat r' = le_nat (take m (drop base buf))"
  using assms
proof (induction "m - j" arbitrary: j r)
  case 0
  then show ?case by simp
next
  case (Suc d)
  let ?xs = "drop base buf"
  let ?b = "buf ! (base + j)"
  let ?r1 = "r OR push_bit (8 * j) (ucast ?b)"
  from Suc.hyps Suc.prems have j: "j < m" "j < 4" "base + j < length buf" by linarith+
  have lt: "length (take j ?xs) = j" using Suc.prems j by simp
  have "unat r < 256 ^ j" using le_nat_bound [of "take j ?xs"] Suc.prems(4) lt by simp
  also have "(256::nat) ^ j = 2 ^ (8 * j)" by (simp add: power_mult)
  finally have small: "unat r < 2 ^ (8 * j)" .
  have "take (Suc j) ?xs = take j ?xs @ [?xs ! j]"
    using j Suc.prems by (intro take_Suc_conv_app_nth) simp
  then have "le_nat (take (Suc j) ?xs) =
      le_nat (take j ?xs) + 256 ^ length (take j ?xs) * le_nat [?xs ! j]"
    by (simp only: le_nat_append)
  then have "le_nat (take (Suc j) ?xs) = le_nat (take j ?xs) + 256 ^ j * unat (?xs ! j)"
    by (simp only: lt le_nat_Cons le_nat_Nil) simp
  moreover have "?xs ! j = ?b" using j by simp
  moreover have "(256::nat) ^ j = 2 ^ (8 * j)" by (simp add: power_mult)
  ultimately have r1: "unat ?r1 = le_nat (take (Suc j) ?xs)"
    using or_shifted_byte [OF small j(2), of ?b] Suc.prems(4) by simp
  have "d = m - Suc j" using Suc.hyps by simp
  from Suc.hyps(1) [OF this Suc.prems(1) Suc.prems(2) _ r1] j obtain r' where
    r': "gather_repeat buf base [Suc j..<m] ?r1 = Some r'"
        "unat r' = le_nat (take m ?xs)" by auto
  have "gather_repeat buf base [j..<m] r = gather_repeat buf base [Suc j..<m] ?r1"
    using j by (simp add: upt_conv_Cons load_def host_word_size_def mult.commute)
  with r' show ?case by simp
qed

lemma count_mask_eq:
  "w < 32 \<Longrightarrow> (ucast ((push_bit w 1 :: u64) - 1) :: u32) = mask w"
  by (simp add: ucast_mask_eq flip: mask_eq_exp_minus_1)

lemma masked_repeat:
  fixes r :: u32
  assumes "w < 32"
  shows "unat ((r AND mask w) + 1) = unat r mod 2 ^ w + 1"
proof -
  have "unat (r AND mask w) = unat (take_bit w r)"
    by (simp only: take_bit_eq_mask)
  also have "\<dots> = take_bit w (unat r)" by (rule unsigned_take_bit_eq)
  also have "\<dots> = unat r mod 2 ^ w" by (rule take_bit_eq_mod)
  finally have m: "unat (r AND mask w) = unat r mod 2 ^ w" .
  have "unat r mod 2 ^ w < 2 ^ w" by simp
  also have "(2::nat) ^ w \<le> 2 ^ 31" using assms by (intro power_increasing) simp_all
  finally have "unat (r AND mask w) + unat (1::u32) < 2 ^ LENGTH(32)"
    by (simp add: m)
  then have "unat ((r AND mask w) + 1) = unat (r AND mask w) + unat (1::u32)"
    by (rule unat_add_lem [THEN iffD1])
  with m show ?thesis by simp
qed

lemma le_nat_take_mod_code:
  assumes "w \<le> 8 * k"
  shows "le_nat (take k xs) mod 2 ^ w = le_nat xs mod 2 ^ w"
proof -
  have "(2::nat) ^ w dvd 2 ^ (8 * k)" using assms by (simp add: le_imp_power_dvd)
  also have "(2::nat) ^ (8 * k) = 256 ^ k" by (simp add: power_mult)
  finally show ?thesis by (simp add: le_nat_take mod_mod_cancel)
qed

lemma unat_plus_7:
  fixes x :: u32
  assumes "unat x + 7 < 2 ^ 32"
  shows "unat (x + 7) = unat x + 7"
proof -
  have "unat x + unat (7::u32) < 2 ^ LENGTH(32)" using assms by simp
  then have "unat (x + 7) = unat x + unat (7::u32)" by (rule unat_add_lem [THEN iffD1])
  then show ?thesis by simp
qed

lemma unat_ucast_byte: "unat (ucast (b::u8) :: u32) = unat b"
proof -
  have "unat b < 2 ^ 8" using unsigned_less [of b] by simp
  then have "unat b < 2 ^ 32" by simp
  then show ?thesis by (simp add: unsigned_ucast_eq take_bit_nat_eq_self)
qed

lemma widths_nat:
  assumes "unat (data_width devc) + unat (runlength_code_width devc) + 7 < 2 ^ 32"
  shows "unat (raw_data_width_bytes devc) =
           (unat (data_width devc) + unat (runlength_code_width devc) + 7) div 8"
    and "unat (runlength_code_width_bytes devc) = (unat (runlength_code_width devc) + 7) div 8"
    and "unat (local_data_width_bytes devc) = (unat (data_width devc) + 7) div 8"
proof -
  let ?w = "ucast (runlength_code_width devc) :: u32"
  let ?dw = "data_width devc"
  note w = unat_ucast_byte [of "runlength_code_width devc"]
  have "unat ?dw + unat ?w < 2 ^ LENGTH(32)" using assms by (simp add: w)
  then have s1: "unat (?dw + ?w) = unat ?dw + unat ?w" by (rule unat_add_lem [THEN iffD1])
  have s2: "unat (?dw + ?w + 7) = unat ?dw + unat ?w + 7"
    using assms unat_plus_7 [of "?dw + ?w"] by (simp only: s1 w)
  have s3: "unat (?w + 7) = unat ?w + 7"
    using assms unat_plus_7 [of ?w] by (simp only: w)
  have s4: "unat (?dw + 7) = unat ?dw + 7"
    using assms unat_plus_7 [of ?dw] by simp
  have a: "\<And>x::u32. x + 8 - 1 = x + 7" by simp
  have h: "(ucast (8::u8) :: u32) = 8" by simp
  have e1: "raw_data_width_bytes devc = (?dw + ?w + 7) div 8"
    unfolding raw_data_width_bytes_def host_word_size_def by (simp only: h a)
  have e2: "runlength_code_width_bytes devc = (?w + 7) div 8"
    unfolding runlength_code_width_bytes_def host_word_size_def by (simp only: h a)
  have e3: "local_data_width_bytes devc = (?dw + 7) div 8"
    unfolding local_data_width_bytes_def host_word_size_def by (simp only: h a)
  have u8: "unat (8::u32) = 8" by simp
  have "unat (raw_data_width_bytes devc) = unat (?dw + ?w + 7) div unat (8::u32)"
    unfolding e1 by (rule unat_div)
  then show "unat (raw_data_width_bytes devc) =
           (unat (data_width devc) + unat (runlength_code_width devc) + 7) div 8"
    by (simp only: s2 w u8)
  have "unat (runlength_code_width_bytes devc) = unat (?w + 7) div unat (8::u32)"
    unfolding e2 by (rule unat_div)
  then show "unat (runlength_code_width_bytes devc) = (unat (runlength_code_width devc) + 7) div 8"
    by (simp only: s3 w u8)
  have "unat (local_data_width_bytes devc) = unat (?dw + 7) div unat (8::u32)"
    unfolding e3 by (rule unat_div)
  then show "unat (local_data_width_bytes devc) = (unat (data_width devc) + 7) div 8"
    by (simp only: s4 u8)
qed

lemma repeat_of_sample:
  assumes w: "0 < w" "w < 32"
    and fit: "(w + 7) div 8 \<le> raw_bytes" "(i + 1) * raw_bytes \<le> length buf"
  shows "\<exists>r. gather_repeat buf (i * raw_bytes) [0..<(w + 7) div 8] 0 = Some r \<and>
           unat ((r AND mask w) + 1) = sample_repeat w (raw_sample buf raw_bytes i)"
proof -
  let ?k = "(w + 7) div 8"
  let ?xs = "drop (i * raw_bytes) buf"
  have k4: "?k \<le> 4" using w by simp
  have inb: "i * raw_bytes + ?k \<le> length buf" using fit by simp
  from gather_repeat_le [OF k4 inb, of 0 0] obtain r where
    r: "gather_repeat buf (i * raw_bytes) [0..<?k] 0 = Some r" "unat r = le_nat (take ?k ?xs)"
    by auto
  have wk: "w \<le> 8 * ?k" by simp
  have wr: "w \<le> 8 * raw_bytes" using wk fit(1) by simp
  have "unat ((r AND mask w) + 1) = le_nat (take ?k ?xs) mod 2 ^ w + 1"
    using masked_repeat [OF w(2), of r] r(2) by simp
  also have "le_nat (take ?k ?xs) mod 2 ^ w = le_nat ?xs mod 2 ^ w"
    by (rule le_nat_take_mod_code [OF wk])
  also have "le_nat ?xs mod 2 ^ w = le_nat (take raw_bytes ?xs) mod 2 ^ w"
    by (rule le_nat_take_mod_code [OF wr, symmetric])
  finally show ?thesis using r(1) by (auto simp: sample_repeat_def raw_sample_def)
qed

lemma count_repeats_sum:
  assumes w: "0 < w" "w < 32"
    and widths: "unat RAW = raw_bytes" "unat CODE = (w + 7) div 8" "(w + 7) div 8 \<le> raw_bytes"
    and inb: "\<forall>i\<in>set is. (i + 1) * raw_bytes \<le> length buf"
  shows "count_repeats buf RAW CODE (mask w) raw_delay is (reps, d, t) =
     Some (reps @ map (\<lambda>i. word_of_nat (sample_repeat w (raw_sample buf raw_bytes i))) is,
           d + word_of_nat (sum_list (map (\<lambda>i. sample_repeat w (raw_sample buf raw_bytes i))
                                      (filter (\<lambda>i. i < unat raw_delay) is))),
           t + word_of_nat (sum_list (map (\<lambda>i. sample_repeat w (raw_sample buf raw_bytes i)) is)))"
  using inb
proof (induction "is" arbitrary: reps d t)
  case Nil
  show ?case by simp
next
  case (Cons i rest)
  let ?f = "\<lambda>i. sample_repeat w (raw_sample buf raw_bytes i)"
  from Cons.prems have i: "(i + 1) * raw_bytes \<le> length buf" by simp
  from repeat_of_sample [OF w widths(3) i] obtain r where
    r: "gather_repeat buf (i * raw_bytes) [0..<(w + 7) div 8] 0 = Some r"
       "unat ((r AND mask w) + 1) = ?f i" by blast
  let ?rep = "(r AND mask w) + 1"
  have rep32: "?rep = word_of_nat (?f i)"
  proof -
    have "?rep = word_of_nat (unat ?rep)" by simp
    then show ?thesis by (simp only: r(2))
  qed
  have rep64: "(ucast ?rep :: u64) = word_of_nat (?f i)"
  proof -
    have "(ucast ?rep :: u64) = word_of_nat (unat ?rep)" by simp
    then show ?thesis by (simp only: r(2))
  qed
  from Cons.prems have rest: "\<forall>i\<in>set rest. (i + 1) * raw_bytes \<le> length buf" by simp
  show ?case
    using Cons.IH [OF rest] r(1)
    by (simp add: widths Let_def rep64 rep32 [symmetric] add.assoc)
qed

lemma or_shifted_byte16:
  fixes lo hi :: u8
  shows "unat ((ucast lo :: u16) OR push_bit 8 (ucast hi)) = unat lo + 256 * unat hi"
proof -
  let ?l = "ucast lo :: u16" and ?p = "push_bit 8 (ucast hi) :: u16"
  have lo: "unat lo < 2 ^ 8" and hi: "unat hi < 2 ^ 8"
    using unsigned_less [of lo] unsigned_less [of hi] by simp_all
  have ul: "unat ?l = unat lo" using lo by (simp add: unsigned_ucast_eq take_bit_nat_eq_self)
  have uh: "unat (ucast hi :: u16) = unat hi"
    using hi by (simp add: unsigned_ucast_eq take_bit_nat_eq_self)
  have "unat ?p = take_bit 16 (push_bit 8 (unat (ucast hi :: u16)))"
    by (subst unsigned_push_bit_eq) simp
  also have "\<dots> = take_bit 16 (unat hi * 2 ^ 8)" by (simp only: uh push_bit_eq_mult)
  also have "\<dots> = unat hi * 2 ^ 8" using hi by (intro take_bit_nat_eq_self) simp
  finally have up: "unat ?p = 256 * unat hi" by simp
  have "unat (take_bit 8 ?l) = unat ?l"
    using lo by (simp add: unsigned_take_bit_eq take_bit_nat_eq_self ul)
  then have t: "take_bit 8 ?l = ?l" by (simp add: word_unat_eq_iff)
  have "?l AND ?p = take_bit 8 ?l AND ?p" by (simp only: t)
  also have "\<dots> = 0" by (rule bit_eqI) (auto simp: bit_simps)
  finally have "?l OR ?p = ?l + ?p" by (simp add: disjunctive_add_eq_or)
  moreover have "unat ?l + unat ?p < 2 ^ LENGTH(16)" using lo hi by (simp add: ul up)
  then have "unat (?l + ?p) = unat ?l + unat ?p" by (rule unat_add_lem [THEN iffD1])
  ultimately show ?thesis by (simp only: ul up)
qed

lemma window_byte:
  fixes lo hi :: u8
  shows "unat (ucast (drop_bit r ((ucast lo :: u16) OR push_bit 8 (ucast hi)) AND 0x00ff) :: u8) =
         (unat lo + 256 * unat hi) div 2 ^ r mod 256"
proof -
  let ?v = "(ucast lo :: u16) OR push_bit 8 (ucast hi)"
  have m: "(0x00ff :: u16) = mask 8" by (simp add: mask_eq_exp_minus_1)
  have "unat (drop_bit r ?v AND 0x00ff) = unat (take_bit 8 (drop_bit r ?v))"
    by (simp only: m take_bit_eq_mask)
  also have "\<dots> = take_bit 8 (unat (drop_bit r ?v))" by (rule unsigned_take_bit_eq)
  also have "unat (drop_bit r ?v) = drop_bit r (unat ?v)" by (rule unat_drop_bit_eq)
  finally have "unat (drop_bit r ?v AND 0x00ff) = unat ?v div 2 ^ r mod 256"
    by (simp add: take_bit_eq_mod drop_bit_eq_div)
  moreover have "unat (ucast (drop_bit r ?v AND 0x00ff) :: u8) =
      take_bit 8 (unat (drop_bit r ?v AND 0x00ff))"
    by (subst unsigned_ucast_eq) simp
  ultimately show ?thesis by (simp add: take_bit_eq_mod or_shifted_byte16)
qed

lemma div_window:
  assumes "r < 8"
  shows "(x + 65536 * y) div 2 ^ r mod 256 = x div 2 ^ r mod (256::nat)"
proof -
  have "(65536::nat) = 2 ^ r * (256 * 2 ^ (8 - r))"
  proof -
    have "(2::nat) ^ r * (2 ^ 8 * 2 ^ (8 - r)) = 2 ^ (r + (8 + (8 - r)))"
      by (simp only: power_add)
    also have "r + (8 + (8 - r)) = 16" using assms by simp
    finally show ?thesis by simp
  qed
  then have "(x + 65536 * y) div 2 ^ r = (x + 2 ^ r * (256 * 2 ^ (8 - r) * y)) div 2 ^ r"
    by (simp only: mult.assoc)
  also have "\<dots> = x div 2 ^ r + 256 * 2 ^ (8 - r) * y"
    using div_mult_self2 [of "2 ^ r" x "256 * 2 ^ (8 - r) * y"] by simp
  finally show ?thesis by (simp add: mult.assoc)
qed

lemma raw_sample_facts:
  assumes "(i + 1) * raw_bytes \<le> length buf"
  shows "length (raw_sample buf raw_bytes i) = raw_bytes"
    and "\<And>k. k < raw_bytes \<Longrightarrow>
          load buf (i * raw_bytes + k) = Some (raw_sample buf raw_bytes i ! k)"
  using assms by (simp_all add: raw_sample_def load_def)

lemma spec_byte_split:
  "w = 8 * a + r \<Longrightarrow> s div 2 ^ w div 256 ^ byte = s div 256 ^ (a + byte) div (2::nat) ^ r"
proof -
  assume w: "w = 8 * a + r"
  have "(2::nat) ^ w * 256 ^ byte = 256 ^ (a + byte) * 2 ^ r"
    by (simp add: w power_add power_mult)
  then show ?thesis by (simp add: div_mult2_eq [symmetric])
qed

lemma byte_lt_256: "unat (b::u8) < 256"
  using unsigned_less [of b] by simp

lemma byte_word_of_nat:
  fixes b :: u8
  shows "unat b = n \<Longrightarrow> b = word_of_nat n"
  by (metis of_nat_unat ucast_id)

lemma payload_byte_window:
  fixes CW :: u8 and RAW CODE :: u32
  assumes cw: "unat CW = w" "0 < w"
    and widths: "unat RAW = raw_bytes" "unat CODE = (w + 7) div 8"
       "raw_bytes = (dw + w + 7) div 8" "data_bytes = (dw + 7) div 8"
    and fit: "w mod 8 = 0 \<or> w < 8 \<or> (w + 7) div 8 + data_bytes \<le> raw_bytes"
    and inb: "(i + 1) * raw_bytes \<le> length buf"
    and byte: "byte < data_bytes"
  shows "payload_byte buf CW RAW CODE i byte =
     Some (word_of_nat (le_nat (raw_sample buf raw_bytes i) div 2 ^ w div 256 ^ byte mod 256))"
proof -
  let ?s = "raw_sample buf raw_bytes i"
  let ?S = "le_nat ?s"
  define a where "a = w div 8"
  define r where "r = w mod 8"
  have w: "w = 8 * a + r" and r8: "r < 8" by (simp_all add: a_def r_def)
  note rs = raw_sample_facts [OF inb]
  have m8: "unat (CW mod host_word_size) = r"
    by (simp add: host_word_size_def unat_mod cw r_def)
  have ka: "a + byte < raw_bytes"
    using byte widths(3,4) w by simp
  have lo: "le_nat ?s div 256 ^ (a + byte) mod 256 = unat (?s ! (a + byte))"
    using ka rs(1) by (intro le_nat_nth) simp
  show ?thesis
  proof (cases "r = 0")
    case True
    then have c: "(w + 7) div 8 = a" using w by simp
    from True m8 have z: "CW mod host_word_size = 0" by (simp add: unat_eq_zero)
    have idx: "i * raw_bytes + unat CODE + byte = i * raw_bytes + (a + byte)"
      by (simp add: widths(1,2) c add.assoc)
    have "unat (ucast ((ucast (?s ! (a + byte)) :: u16) AND 0x00ff) :: u8) =
        unat (?s ! (a + byte))"
      using window_byte [of 0 "?s ! (a + byte)" 0] byte_lt_256 [of "?s ! (a + byte)"]
      by simp
    then have v: "(ucast ((ucast (?s ! (a + byte)) :: u16) AND 0x00ff) :: u8) =
        word_of_nat (?S div 2 ^ w div 256 ^ byte mod 256)"
      using lo spec_byte_split [OF w, of ?S byte] True
      by (intro byte_word_of_nat) simp
    have l0: "load buf (i * unat RAW + unat CODE + byte) = Some (?s ! (a + byte))"
      using rs(2) [OF ka] by (simp add: widths(1,2) c add.assoc)
    show ?thesis
      unfolding payload_byte_def l0
      using z v by simp
  next
    case rnz: False
    then have c: "(w + 7) div 8 = a + 1" using w r8 by simp
    have nz: "CW mod host_word_size \<noteq> 0"
    proof
      assume "CW mod host_word_size = 0"
      then have "unat (CW mod host_word_size) = unat (0::u8)" by (simp only:)
      with m8 rnz show False by simp
    qed
    have idx1: "i * raw_bytes + unat CODE - 1 + byte = i * raw_bytes + (a + byte)"
      by (simp add: widths(1,2) c add.assoc)
    have idx2: "i * raw_bytes + unat CODE + byte = i * raw_bytes + (Suc (a + byte))"
      by (simp add: widths(1,2) c add.assoc)
    have rawnz: "RAW \<noteq> 0" using ka widths(1) by (auto simp: unat_eq_zero)
    then have rm: "unat (RAW - 1) = raw_bytes - 1" by (simp add: unat_minus_one widths(1))
    have d0: "drop (a + byte) ?s = ?s ! (a + byte) # drop (Suc (a + byte)) ?s"
      using ka rs(1) by (simp add: Cons_nth_drop_Suc)
    have X: "?S div 256 ^ (a + byte) =
        unat (?s ! (a + byte)) + 256 * le_nat (drop (Suc (a + byte)) ?s)"
      using d0 by (simp add: le_nat_drop [symmetric])
    show ?thesis
    proof (cases "byte < raw_bytes - 1")
      case True
      consider "w mod 8 = 0" | "w < 8" | "(w + 7) div 8 + data_bytes \<le> raw_bytes"
        by atomize_elim (rule fit)
      then have kb: "Suc (a + byte) < raw_bytes"
      proof cases
        case 1
        with rnz show ?thesis by (simp add: r_def)
      next
        case 2
        then have "a = 0" by (simp add: a_def)
        with True show ?thesis by simp
      next
        case 3
        with c byte show ?thesis by simp
      qed
      have d1: "drop (Suc (a + byte)) ?s = ?s ! (Suc (a + byte)) # drop (Suc (Suc (a + byte))) ?s"
        using kb rs(1) by (simp add: Cons_nth_drop_Suc)
      have "?S div 2 ^ w div 256 ^ byte mod 256 =
          (unat (?s ! (a + byte)) + 256 * unat (?s ! (Suc (a + byte)))
            + 65536 * le_nat (drop (Suc (Suc (a + byte))) ?s)) div 2 ^ r mod 256"
        by (simp add: spec_byte_split [OF w] X d1 add.assoc)
      also have "\<dots> = (unat (?s ! (a + byte)) + 256 * unat (?s ! (Suc (a + byte))))
            div 2 ^ r mod 256"
        by (rule div_window [OF r8])
      finally have "unat (ucast (drop_bit r ((ucast (?s ! (a + byte)) :: u16)
             OR push_bit 8 (ucast (?s ! (Suc (a + byte))))) AND 0x00ff) :: u8) =
          ?S div 2 ^ w div 256 ^ byte mod 256"
        by (simp only: window_byte)
      then have v: "(ucast (drop_bit r ((ucast (?s ! (a + byte)) :: u16)
             OR push_bit 8 (ucast (?s ! (Suc (a + byte))))) AND 0x00ff) :: u8) =
          word_of_nat (?S div 2 ^ w div 256 ^ byte mod 256)"
        by (rule byte_word_of_nat)
      have l1: "load buf (i * unat RAW + unat CODE - 1 + byte) = Some (?s ! (a + byte))"
        using rs(2) [OF ka] by (simp add: widths(1,2) c add.assoc)
      have l2: "load buf (i * unat RAW + unat CODE + byte) = Some (?s ! Suc (a + byte))"
        using rs(2) [OF kb] by (simp add: widths(1,2) c add.assoc)
      have cnd: "byte < unat (RAW - 1)" using True by (simp add: rm)
      show ?thesis
        unfolding payload_byte_def l1 l2
        using nz cnd v by (simp add: m8)
    next
      case False
      with ka have e: "drop (Suc (a + byte)) ?s = []" using rs(1) by simp
      have "?S div 2 ^ w div 256 ^ byte mod 256 =
          (unat (?s ! (a + byte)) + 256 * unat (0::u8)) div 2 ^ r mod 256"
        by (simp add: spec_byte_split [OF w] X e)
      then have "unat (ucast (drop_bit r ((ucast (?s ! (a + byte)) :: u16)
             OR push_bit 8 (ucast (0::u8))) AND 0x00ff) :: u8) =
          ?S div 2 ^ w div 256 ^ byte mod 256"
        by (simp only: window_byte)
      then have v: "(ucast (drop_bit r ((ucast (?s ! (a + byte)) :: u16)
             OR push_bit 8 (ucast (0::u8))) AND 0x00ff) :: u8) =
          word_of_nat (?S div 2 ^ w div 256 ^ byte mod 256)"
        by (rule byte_word_of_nat)
      have l1: "load buf (i * unat RAW + unat CODE - 1 + byte) = Some (?s ! (a + byte))"
        using rs(2) [OF ka] by (simp add: widths(1,2) c add.assoc)
      have cnd: "\<not> byte < unat (RAW - 1)" using False by (simp add: rm)
      show ?thesis
        unfolding payload_byte_def l1
        using nz cnd v by (simp add: m8)
    qed
  qed
qed

lemma write_sample_payload:
  fixes CW :: u8 and RAW CODE :: u32
  assumes cw: "unat CW = w" "0 < w"
    and widths: "unat RAW = raw_bytes" "unat CODE = (w + 7) div 8"
       "raw_bytes = (dw + w + 7) div 8" "data_bytes = (dw + 7) div 8"
    and fit: "w mod 8 = 0 \<or> w < 8 \<or> (w + 7) div 8 + data_bytes \<le> raw_bytes"
    and inb: "(i + 1) * raw_bytes \<le> length buf"
    and bytes: "\<forall>b\<in>set bytes. b < data_bytes"
  shows "write_sample buf CW RAW CODE i bytes run =
     Some (run @ map (\<lambda>b. word_of_nat
            (le_nat (raw_sample buf raw_bytes i) div 2 ^ w div 256 ^ b mod 256)) bytes)"
  using bytes
proof (induction bytes arbitrary: run)
  case Nil
  show ?case by simp
next
  case (Cons b rest)
  then have b: "b < data_bytes" and rest: "\<forall>b\<in>set rest. b < data_bytes" by simp_all
  note pb = payload_byte_window [OF cw widths fit inb b]
  show ?case using Cons.IH [OF rest] by (simp add: pb)
qed

lemma copy_runs_replicate:
  "width \<le> length run \<Longrightarrow>
   copy_runs n width run = run @ concat (replicate n (drop (length run - width) run))"
proof (induction n arbitrary: run)
  case 0
  show ?case by simp
next
  case (Suc n)
  let ?l = "drop (length run - width) run"
  have l: "length ?l = width" using Suc.prems by simp
  have "drop (length (run @ ?l) - width) (run @ ?l) = ?l" using l by simp
  moreover have "width \<le> length (run @ ?l)" using Suc.prems by simp
  ultimately have "copy_runs n width (run @ ?l) = (run @ ?l) @ concat (replicate n ?l)"
    using Suc.IH [of "run @ ?l"] by simp
  then show ?case by simp
qed

lemma expand_samples_expanded:
  fixes CW :: u8 and RAW CODE DATA :: u32
  assumes cw: "unat CW = w" "0 < w" "w < 32"
    and widths: "unat RAW = raw_bytes" "unat CODE = (w + 7) div 8"
       "raw_bytes = (dw + w + 7) div 8" "data_bytes = (dw + 7) div 8"
    and data: "unat DATA = data_bytes"
    and fit: "w mod 8 = 0 \<or> w < 8 \<or> (w + 7) div 8 + data_bytes \<le> raw_bytes"
    and reps: "repeats = map (\<lambda>i. word_of_nat (sample_repeat w (raw_sample buf raw_bytes i))) [0..<n]"
    and inb: "\<forall>i\<in>set is. i < n \<and> (i + 1) * raw_bytes \<le> length buf"
  shows "expand_samples buf CW RAW CODE DATA repeats is run =
     Some (run @ expanded w raw_bytes data_bytes buf is)"
  using inb
proof (induction "is" arbitrary: run)
  case Nil
  show ?case by (simp add: expanded_def)
next
  case (Cons i rest)
  let ?s = "raw_sample buf raw_bytes i"
  let ?p = "sample_payload w data_bytes ?s"
  from Cons.prems have i: "i < n" "(i + 1) * raw_bytes \<le> length buf"
    and rest: "\<forall>i\<in>set rest. i < n \<and> (i + 1) * raw_bytes \<le> length buf" by simp_all
  have ws: "write_sample buf CW RAW CODE i [0..<data_bytes] run = Some (run @ ?p)"
    using write_sample_payload [OF cw(1,2) widths fit i(2), of "[0..<data_bytes]" run]
    by (simp add: sample_payload_def)
  have "sample_repeat w ?s \<le> 2 ^ w" by (simp add: sample_repeat_def Suc_leI)
  also have "(2::nat) ^ w \<le> 2 ^ 31" using cw(3) by (intro power_increasing) simp_all
  finally have small: "sample_repeat w ?s < 2 ^ 32" by simp
  have ld: "load repeats i = Some (word_of_nat (sample_repeat w ?s))"
    using i(1) by (simp add: load_def reps)
  have ur: "unat (word_of_nat (sample_repeat w ?s) :: u32) = sample_repeat w ?s"
    using small by (simp add: unat_of_nat)
  have pos: "0 < sample_repeat w ?s" by (simp add: sample_repeat_def)
  have lp: "length ?p = data_bytes" by (simp add: sample_payload_def)
  have "copy_runs (sample_repeat w ?s - 1) data_bytes (run @ ?p) =
      (run @ ?p) @ concat (replicate (sample_repeat w ?s - 1) ?p)"
    using copy_runs_replicate [of data_bytes "run @ ?p" "sample_repeat w ?s - 1"] lp by simp
  also have "\<dots> = run @ concat (replicate (Suc (sample_repeat w ?s - 1)) ?p)" by simp
  also have "Suc (sample_repeat w ?s - 1) = sample_repeat w ?s" using pos by simp
  finally have cr: "copy_runs (sample_repeat w ?s - Suc 0) data_bytes (run @ ?p) =
      run @ concat (replicate (sample_repeat w ?s) ?p)" by simp
  show ?case
    using Cons.IH [OF rest] by (simp add: ws ld ur data cr expanded_def)
qed

lemma filter_less_upt: "filter (\<lambda>i. i < k) [0..<n] = [0..<min k n]"
proof (induction n)
  case 0
  show ?case by simp
next
  case (Suc n)
  show ?case
  proof (cases "n < k")
    case True
    then have "min k (Suc n) = Suc (min k n)" by simp
    with Suc True show ?thesis by simp
  next
    case False
    then have "min k (Suc n) = min k n" by simp
    with Suc False show ?thesis by simp
  qed
qed

lemma sample_repeat_bounds: "1 \<le> sample_repeat w s" "sample_repeat w s \<le> 2 ^ w"
  by (simp_all add: sample_repeat_def Suc_leI)

lemma repeat_sum_bounds:
  "k \<le> repeat_sum w raw_bytes buf k" "repeat_sum w raw_bytes buf k \<le> k * 2 ^ w"
proof -
  have "k \<le> repeat_sum w raw_bytes buf k \<and> repeat_sum w raw_bytes buf k \<le> k * 2 ^ w"
  proof (induction k)
    case 0
    show ?case by (simp add: repeat_sum_def)
  next
    case (Suc k)
    with sample_repeat_bounds [of w "raw_sample buf raw_bytes k"] show ?case
      by (simp add: repeat_sum_def)
  qed
  then show "k \<le> repeat_sum w raw_bytes buf k" "repeat_sum w raw_bytes buf k \<le> k * 2 ^ w"
    by simp_all
qed

lemma repeat_sum_mono: "j \<le> k \<Longrightarrow> repeat_sum w raw_bytes buf j \<le> repeat_sum w raw_bytes buf k"
proof (induction k)
  case 0
  then show ?case by simp
next
  case (Suc k)
  show ?case
  proof (cases "j = Suc k")
    case True
    then show ?thesis by simp
  next
    case False
    with Suc have "repeat_sum w raw_bytes buf j \<le> repeat_sum w raw_bytes buf k" by simp
    then show ?thesis by (simp add: repeat_sum_def)
  qed
qed

lemma length_expanded:
  "length (expanded w raw_bytes data_bytes buf is) =
     sum_list (map (\<lambda>i. sample_repeat w (raw_sample buf raw_bytes i)) is) * data_bytes"
  by (induction "is")
     (simp_all add: expanded_def sample_payload_def length_concat sum_list_replicate
        algebra_simps)

lemma unat_of_nat64: "k < 2 ^ 64 \<Longrightarrow> unat (word_of_nat k :: u64) = k"
  by (simp add: unat_of_nat)

lemma first_pass_sums:
  assumes "decodable heap devc buf"
    and names: "w = unat (runlength_code_width devc)" "n = unat (limit_samples devc)"
      "raw_bytes = (unat (data_width devc) + w + 7) div 8"
  shows "first_pass devc =
      Some (map (\<lambda>i. word_of_nat (sample_repeat w (raw_sample buf raw_bytes i))) [0..<n],
            word_of_nat (repeat_sum w raw_bytes buf (min (unat (delay_value devc)) n)),
            word_of_nat (repeat_sum w raw_bytes buf n))"
proof -
  let ?dw = "unat (data_width devc)"
  from assms(1) have d:
    "0 < w" "w < 32" "?dw + w + 7 < 2 ^ 32" "raw_sample_buf devc = Some buf"
    "length buf = n * raw_bytes"
    by (simp_all add: decodable_def Let_def names)
  have wd: "unat (raw_data_width_bytes devc) = raw_bytes"
    "unat (runlength_code_width_bytes devc) = (w + 7) div 8"
    using widths_nat [of devc] d(3) by (simp_all add: names)
  have cb: "(w + 7) div 8 \<le> raw_bytes" by (simp add: names(3) div_le_mono)
  have mk: "(ucast ((push_bit (unat (runlength_code_width devc)) 1 :: u64) - 1) :: u32) = mask w"
    using count_mask_eq [OF d(2)] by (simp add: names)
  have inb: "\<forall>i\<in>set [0..<n]. (i + 1) * raw_bytes \<le> length buf"
  proof
    fix i assume "i \<in> set [0..<n]"
    then have "i + 1 \<le> n" by simp
    then have "(i + 1) * raw_bytes \<le> n * raw_bytes" by (rule mult_le_mono1)
    then show "(i + 1) * raw_bytes \<le> length buf" by (simp only: d(5))
  qed
  have "first_pass devc =
      count_repeats buf (raw_data_width_bytes devc) (runlength_code_width_bytes devc)
        (mask w) (delay_value devc) [0..<n] ([], 0, 0)"
    unfolding first_pass_def mk by (simp add: d(4) names(2))
  then show ?thesis
    using count_repeats_sum [OF d(1,2) wd(1,2) cb inb, of "delay_value devc" "[]" 0 0]
    by (simp add: filter_less_upt repeat_sum_def)
qed

lemma runlength_decode_spec:
  assumes "decodable heap devc buf"
    and names: "w = unat (runlength_code_width devc)" "n = unat (limit_samples devc)"
      "raw_bytes = (unat (data_width devc) + w + 7) div 8"
      "data_bytes = (unat (data_width devc) + 7) div 8"
  shows "\<exists>delay samples.
      ipdbg_la_runlength_decode heap devc =
        Some (True, devc\<lparr>raw_sample_buf := Some (expanded w raw_bytes data_bytes buf [0..<n])\<rparr>,
              delay, samples) \<and>
      unat samples = repeat_sum w raw_bytes buf n \<and>
      unat delay = repeat_sum w raw_bytes buf (min (unat (delay_value devc)) n)"
proof -
  let ?dw = "unat (data_width devc)"
  let ?f = "\<lambda>i. sample_repeat w (raw_sample buf raw_bytes i)"
  from assms(1) have d:
    "0 < w" "w < 32" "?dw + w + 7 < 2 ^ 32" "raw_sample_buf devc = Some buf"
    "length buf = n * raw_bytes" "0 < n"
    "w mod 8 = 0 \<or> w < 8 \<or> (w + 7) div 8 + data_bytes \<le> raw_bytes"
    "0 < ?dw" "4 * n < 2 ^ 64" "n * 2 ^ w * data_bytes < 2 ^ 64"
    "can_alloc heap (4 * n)" "can_alloc heap (repeat_sum w raw_bytes buf n * data_bytes)"
    by (simp_all add: decodable_def Let_def names)
  have wd: "unat (raw_data_width_bytes devc) = raw_bytes"
    "unat (runlength_code_width_bytes devc) = (w + 7) div 8"
    "unat (local_data_width_bytes devc) = data_bytes"
    using widths_nat [of devc] d(3) by (simp_all add: names)
  have cb: "(w + 7) div 8 \<le> raw_bytes" by (simp add: names(3) div_le_mono)
  have db: "0 < data_bytes" using d(8) by (simp add: names(4))
  have w0: "runlength_code_width devc \<noteq> 0" using d(1) by (auto simp: names)
  have w64: "\<not> 64 \<le> unat (runlength_code_width devc)" using d(2) by (simp add: names)
  have mk: "(ucast ((push_bit (unat (runlength_code_width devc)) 1 :: u64) - 1) :: u32) = mask w"
    using count_mask_eq [OF d(2)] by (simp add: names)
  then have mk': "(ucast ((2::u64) ^ unat (runlength_code_width devc) - 1) :: u32) = mask w"
    by simp
  \<comment> \<open>the table of repeat counts\<close>
  have "unat (limit_samples devc) * unat (4::u64) < 2 ^ LENGTH(64)"
    using d(9) by (simp add: names mult.commute)
  then have "unat (limit_samples devc * 4) = unat (limit_samples devc) * unat (4::u64)"
    by (rule unat_mult_lem [THEN iffD1])
  then have t4: "unat (limit_samples devc * 4) = 4 * n" by (simp add: names)
  have tnz: "limit_samples devc * 4 \<noteq> 0"
  proof
    assume "limit_samples devc * 4 = 0"
    then have "unat (limit_samples devc * 4) = unat (0::u64)" by (simp only:)
    with t4 d(6) show False by simp
  qed
  have gm: "g_malloc heap (limit_samples devc * 4) =
      Some (Some (map (garbage heap) [0..<4 * n]))"
    using tnz d(11) by (simp add: g_malloc_def t4)
  \<comment> \<open>the first pass\<close>
  have inb: "\<forall>i\<in>set [0..<n]. (i + 1) * raw_bytes \<le> length buf"
  proof
    fix i assume "i \<in> set [0..<n]"
    then have "i + 1 \<le> n" by simp
    then have "(i + 1) * raw_bytes \<le> n * raw_bytes" by (rule mult_le_mono1)
    then show "(i + 1) * raw_bytes \<le> length buf" by (simp only: d(5))
  qed
  note cr = first_pass_sums [OF assms(1) names(1,2,3)]
  \<comment> \<open>the sizes\<close>
  let ?T = "repeat_sum w raw_bytes buf n"
  let ?D = "repeat_sum w raw_bytes buf (min (unat (delay_value devc)) n)"
  have "?T * data_bytes \<le> n * 2 ^ w * data_bytes"
    using repeat_sum_bounds(2) [of w raw_bytes buf n] by (rule mult_le_mono1)
  then have Tsz: "?T * data_bytes < 2 ^ 64" using d(10) by (rule le_less_trans)
  with db have T64: "?T < 2 ^ 64"
    by (metis One_nat_def Suc_leI le_less_trans mult.right_neutral mult_le_mono2)
  have "?D \<le> ?T" by (rule repeat_sum_mono) simp
  with T64 have D64: "?D < 2 ^ 64" by simp
  have uT: "unat (word_of_nat ?T :: u64) = ?T" by (rule unat_of_nat64 [OF T64])
  have uD: "unat (word_of_nat ?D :: u64) = ?D" by (rule unat_of_nat64 [OF D64])
  have ud: "unat (ucast (local_data_width_bytes devc) :: u64) = data_bytes"
  proof -
    have "unat (local_data_width_bytes devc) < 2 ^ 32"
      using unsigned_less [of "local_data_width_bytes devc"] by simp
    then have "unat (local_data_width_bytes devc) < 2 ^ 64" by simp
    then show ?thesis by (simp add: unsigned_ucast_eq take_bit_nat_eq_self wd(3))
  qed
  have "unat (word_of_nat ?T :: u64) * unat (ucast (local_data_width_bytes devc) :: u64)
      < 2 ^ LENGTH(64)"
    using Tsz by (simp only: uT ud) simp
  then have "unat ((word_of_nat ?T :: u64) * ucast (local_data_width_bytes devc)) =
      unat (word_of_nat ?T :: u64) * unat (ucast (local_data_width_bytes devc) :: u64)"
    by (rule unat_mult_lem [THEN iffD1])
  then have sz: "unat ((word_of_nat ?T :: u64) * ucast (local_data_width_bytes devc)) =
      ?T * data_bytes" by (simp only: uT ud)
  have Tpos: "0 < ?T * data_bytes"
    using repeat_sum_bounds(1) [of n w raw_bytes buf] d(6) db by simp
  have snz: "(word_of_nat ?T :: u64) * ucast (local_data_width_bytes devc) \<noteq> 0"
  proof
    assume "(word_of_nat ?T :: u64) * ucast (local_data_width_bytes devc) = 0"
    then have "unat ((word_of_nat ?T :: u64) * ucast (local_data_width_bytes devc)) =
        unat (0::u64)" by (simp only:)
    with sz Tpos show False by simp
  qed
  have gt: "g_try_malloc heap ((word_of_nat ?T :: u64) * ucast (local_data_width_bytes devc)) =
      Some (map (garbage heap) [0..<?T * data_bytes])"
    using snz d(12) by (simp add: g_try_malloc_def sz)
  \<comment> \<open>the second pass\<close>
  have inb2: "\<forall>i\<in>set [0..<n]. i < n \<and> (i + 1) * raw_bytes \<le> length buf"
    using inb by simp
  have ex: "expand_samples buf (runlength_code_width devc) (raw_data_width_bytes devc)
      (runlength_code_width_bytes devc) (local_data_width_bytes devc)
      (map (\<lambda>i. word_of_nat (?f i)) [0..<n]) [0..<n] [] =
      Some (expanded w raw_bytes data_bytes buf [0..<n])"
    using expand_samples_expanded [OF names(1) [symmetric] d(1,2) wd(1,2) names(3,4) wd(3) d(7)
        refl inb2, of "[]"]
    by simp
  have le: "length (expanded w raw_bytes data_bytes buf [0..<n]) = ?T * data_bytes"
    by (simp add: length_expanded repeat_sum_def)
  have "ipdbg_la_runlength_decode heap devc =
      Some (True, devc\<lparr>raw_sample_buf := Some (expanded w raw_bytes data_bytes buf [0..<n])\<rparr>,
            word_of_nat ?D, word_of_nat ?T)"
    using w0 w64
    by (simp add: ipdbg_la_runlength_decode_def Let_def gm d(4) names(2) [symmetric]
        cr gt ex le)
  with uT uD show ?thesis by blast
qed

text \<open>
  Claim C2, amended. For a context that is \<open>decodable\<close> (the code width \<open>w\<close> is
  between 1 and 31, the raw buffer holds exactly \<open>limit_samples\<close> raw samples, and the
  other conditions of \<open>decodable\<close> hold), \<open>ipdbg_la_runlength_decode\<close> returns \<open>TRUE\<close>;
  the repeat count of a raw sample is its run-length field, the low \<open>w\<close> bits of the
  little-endian raw sample, plus one; \<open>total_samples\<close> is the sum of the repeat counts
  of all raw samples; \<open>delay_value\<close> is the sum of the repeat counts of the raw samples
  before the configured delay; and the new buffer is the expansion: the payload of each
  raw sample, the \<open>data_width_bytes\<close> bytes above the field, as often as its repeat
  count says, in the order of the raw samples.
\<close>

theorem runlength_decode_expands:
  assumes "decodable heap devc buf"
    and "w = unat (runlength_code_width devc)" "n = unat (limit_samples devc)"
      "raw_bytes = (unat (data_width devc) + w + 7) div 8"
      "data_bytes = (unat (data_width devc) + 7) div 8"
  shows "\<exists>delay samples.
      ipdbg_la_runlength_decode heap devc =
        Some (True, devc\<lparr>raw_sample_buf := Some (expanded w raw_bytes data_bytes buf [0..<n])\<rparr>,
              delay, samples) \<and>
      unat samples = repeat_sum w raw_bytes buf n \<and>
      unat delay = repeat_sum w raw_bytes buf (min (unat (delay_value devc)) n)"
  using assms by (rule runlength_decode_spec)

theorem runlength_decode_expands_witness:
  "ipdbg_la_runlength_decode roomy_heap
     (ipdbg_la_dev_new\<lparr>data_width := 8, runlength_code_width := 8, limit_samples := 2,
        delay_value := 1, raw_sample_buf := Some [0x00, 0xAB, 0x02, 0xCD]\<rparr>) =
   Some (True,
     ipdbg_la_dev_new\<lparr>data_width := 8, runlength_code_width := 8, limit_samples := 2,
        delay_value := 1, raw_sample_buf := Some [0xAB, 0xCD, 0xCD, 0xCD]\<rparr>, 1, 4)"
proof -
  define D where "D = ipdbg_la_dev_new\<lparr>data_width := 8, runlength_code_width := 8,
    limit_samples := 2, delay_value := 1, raw_sample_buf := Some [0x00, 0xAB, 0x02, 0xCD]\<rparr>"
  have u2: "[0..<2] = [0, Suc 0]"
    by (simp add: upt_conv_Cons)
  have r3: "replicate 2 x = [x, x]" for x :: u8
    by (simp add: numeral_2_eq_2)
  have rs: "repeat_sum 8 2 [0x00, 0xAB, 0x02, 0xCD] 2 = 4"
    "repeat_sum 8 2 [0x00, 0xAB, 0x02, 0xCD] 1 = 1"
    by (simp_all add: repeat_sum_def sample_repeat_def raw_sample_def le_nat_def u2)
  have ex: "expanded 8 2 1 [0x00, 0xAB, 0x02, 0xCD] [0..<2] = [0xAB, 0xCD, 0xCD, 0xCD]"
    unfolding u2
    by (simp add: expanded_def sample_payload_def sample_repeat_def raw_sample_def le_nat_def r3)
  have dec: "decodable roomy_heap D [0x00, 0xAB, 0x02, 0xCD]"
    by (simp add: D_def decodable_def Let_def ipdbg_la_dev_new_def roomy_heap_def)
  have n1: "8 = unat (runlength_code_width D)" and n2: "2 = unat (limit_samples D)"
    and n3: "2 = (unat (data_width D) + 8 + 7) div 8" and n4: "1 = (unat (data_width D) + 7) div 8"
    and dl: "min (unat (delay_value D)) 2 = 1"
    by (simp_all add: D_def ipdbg_la_dev_new_def)
  from runlength_decode_expands [OF dec n1 n2 n3 n4] obtain delay samples where
    r: "ipdbg_la_runlength_decode roomy_heap D =
        Some (True, D\<lparr>raw_sample_buf := Some [0xAB, 0xCD, 0xCD, 0xCD]\<rparr>, delay, samples)"
       "unat samples = 4" "unat delay = 1"
    unfolding ex dl rs by blast
  from r(2) have "samples = 4" by (simp add: word_unat_eq_iff)
  moreover from r(3) have "delay = 1" by (simp add: word_unat_eq_iff)
  ultimately show ?thesis using r(1) by (simp add: D_def)
qed

lemma gather_repeat_ones:
  "gather_repeat [0xFF, 0xFF, 0xFF, 0xFF, 0xAB] 0 [0..<4] 0 = Some 0xFFFFFFFF"
proof -
  have u: "[0..<4] = [0, 1, 2, 3]"
    by (simp add: upt_conv_Cons)
  show ?thesis
    unfolding u by (simp add: load_def host_word_size_def)
qed

lemma first_pass_ones:
  "first_pass
     (ipdbg_la_dev_new\<lparr>data_width := 8, runlength_code_width := 32, limit_samples := 1,
        raw_sample_buf := Some [0xFF, 0xFF, 0xFF, 0xFF, 0xAB]\<rparr>) = Some ([0], 0, 0)"
proof -
  define D where "D = ipdbg_la_dev_new\<lparr>data_width := 8, runlength_code_width := 32,
    limit_samples := 1, raw_sample_buf := Some [0xFF, 0xFF, 0xFF, 0xFF, 0xAB]\<rparr>"
  have w: "raw_data_width_bytes D = 5" "runlength_code_width_bytes D = 4"
    by (simp_all add: D_def ipdbg_la_dev_new_def raw_data_width_bytes_def
        runlength_code_width_bytes_def host_word_size_def)
  have m: "(ucast ((push_bit (unat (runlength_code_width D)) 1 :: u64) - 1) :: u32) = 0xFFFFFFFF"
    by (simp add: D_def ipdbg_la_dev_new_def)
  have f: "raw_sample_buf D = Some [0xFF, 0xFF, 0xFF, 0xFF, 0xAB]" "delay_value D = 0"
    "unat (limit_samples D) = 1"
    by (simp_all add: D_def ipdbg_la_dev_new_def)
  have "first_pass D = Some ([0], 0, 0)"
    unfolding first_pass_def w m f by (simp add: gather_repeat_ones)
  then show ?thesis
    by (simp add: D_def)
qed

text \<open>
  Claim C2 as stated, for every code width above 0, fails at the code width 32: for a
  raw sample with the field \<open>0xFFFFFFFF\<close> the field plus one is \<open>2 ^ 32\<close>, but the
  decoder counts in \<open>uint32_t\<close>, the count wraps to 0, \<open>total_samples\<close> is 0, the
  allocation of 0 bytes yields \<open>NULL\<close> and the decoder returns \<open>FALSE\<close>.
\<close>

theorem runlength_decode_wraps_at_32:
  "sample_repeat 32 (raw_sample [0xFF, 0xFF, 0xFF, 0xFF, 0xAB] 5 0) = 4294967296 \<and>
   ipdbg_la_runlength_decode roomy_heap
     (ipdbg_la_dev_new\<lparr>data_width := 8, runlength_code_width := 32, limit_samples := 1,
        raw_sample_buf := Some [0xFF, 0xFF, 0xFF, 0xFF, 0xAB]\<rparr>) =
   Some (False,
     ipdbg_la_dev_new\<lparr>data_width := 8, runlength_code_width := 32, limit_samples := 1,
        raw_sample_buf := Some [0xFF, 0xFF, 0xFF, 0xFF, 0xAB]\<rparr>, 0, 0)"
proof -
  define D where "D = ipdbg_la_dev_new\<lparr>data_width := 8, runlength_code_width := 32,
    limit_samples := 1, raw_sample_buf := Some [0xFF, 0xFF, 0xFF, 0xFF, 0xAB]\<rparr>"
  have fp: "first_pass D = Some ([0], 0, 0)"
    unfolding D_def by (rule first_pass_ones)
  have f: "runlength_code_width D = 32" "limit_samples D = 1"
    by (simp_all add: D_def ipdbg_la_dev_new_def)
  have a: "g_malloc roomy_heap 4 = Some (Some [0, 0, 0, 0])"
    by (simp add: g_malloc_def roomy_heap_def upt_conv_Cons)
  have b: "g_try_malloc roomy_heap 0 = None"
    by (simp add: g_try_malloc_def)
  have "ipdbg_la_runlength_decode roomy_heap D = Some (False, D, 0, 0)"
    unfolding ipdbg_la_runlength_decode_def f fp by (simp add: a b)
  moreover have "sample_repeat 32 (raw_sample [0xFF, 0xFF, 0xFF, 0xFF, 0xAB] 5 0) = 4294967296"
    by (simp add: sample_repeat_def raw_sample_def le_nat_def)
  ultimately show ?thesis
    by (simp add: D_def)
qed

lemma first_pass_nibbles:
  "first_pass
     (ipdbg_la_dev_new\<lparr>data_width := 4, runlength_code_width := 4, limit_samples := 2,
        delay_value := 1, raw_sample_buf := Some [0x31, 0x50]\<rparr>) = Some ([2, 1], 2, 3)"
proof -
  define D where "D = ipdbg_la_dev_new\<lparr>data_width := 4, runlength_code_width := 4,
    limit_samples := 2, delay_value := 1, raw_sample_buf := Some [0x31, 0x50]\<rparr>"
  have w: "raw_data_width_bytes D = 1" "runlength_code_width_bytes D = 1"
    by (simp_all add: D_def ipdbg_la_dev_new_def raw_data_width_bytes_def
        runlength_code_width_bytes_def host_word_size_def)
  have m: "(ucast ((push_bit (unat (runlength_code_width D)) 1 :: u64) - 1) :: u32) = 15"
    by (simp add: D_def ipdbg_la_dev_new_def)
  have f: "raw_sample_buf D = Some [0x31, 0x50]" "delay_value D = 1"
    "unat (limit_samples D) = 2"
    by (simp_all add: D_def ipdbg_la_dev_new_def)
  have u: "[0..<2] = [0, 1]"
    by (simp add: upt_conv_Cons)
  have "first_pass D = Some ([2, 1], 2, 3)"
    unfolding first_pass_def w m f u by (simp add: load_def host_word_size_def)
  then show ?thesis
    by (simp add: D_def)
qed

text \<open>
  Claim C10, amended. For a code width \<open>w\<close> between 1 and 31 and a raw buffer of exactly
  \<open>n = limit_samples\<close> raw samples, with the width of a raw sample computed without
  wrapping and \<open>n * 2 ^ w\<close> below \<open>2 ^ 64\<close>, the first pass of
  \<open>ipdbg_la_runlength_decode\<close> computes one repeat count for each raw sample, every
  repeat count is at least 1 and at most \<open>2 ^ w\<close>, \<open>total_samples\<close> is at least \<open>n\<close>,
  \<open>delay_value\<close> is at most \<open>total_samples\<close>, and these two sums are what the decoder
  returns when it succeeds.
\<close>

theorem runlength_repeat_bounds:
  assumes w: "w = unat (runlength_code_width devc)" "0 < w" "w < 32"
    and n: "n = unat (limit_samples devc)"
    and widths: "unat (data_width devc) + w + 7 < 2 ^ 32"
    and buf: "raw_sample_buf devc = Some buf"
      "length buf = n * ((unat (data_width devc) + w + 7) div 8)"
    and sums: "n * 2 ^ w < 2 ^ 64"
  shows "\<exists>repeats delay samples.
      first_pass devc = Some (repeats, delay, samples) \<and>
      length repeats = n \<and>
      (\<forall>r\<in>set repeats. 1 \<le> unat r \<and> unat r \<le> 2 ^ w) \<and>
      n \<le> unat samples \<and> unat delay \<le> unat samples \<and>
      (\<forall>devc' d s. ipdbg_la_runlength_decode heap devc = Some (True, devc', d, s) \<longrightarrow>
         d = delay \<and> s = samples)"
proof -
  define raw_bytes where "raw_bytes = (unat (data_width devc) + w + 7) div 8"
  define reps :: "u32 list" where
    "reps = map (\<lambda>i. word_of_nat (sample_repeat w (raw_sample buf raw_bytes i))) [0..<n]"
  define k where "k = min (unat (delay_value devc)) n"
  define delay :: u64 where "delay = word_of_nat (repeat_sum w raw_bytes buf k)"
  define samples :: u64 where "samples = word_of_nat (repeat_sum w raw_bytes buf n)"
  have wd: "unat (raw_data_width_bytes devc) = raw_bytes"
    "unat (runlength_code_width_bytes devc) = (w + 7) div 8"
    using widths_nat [of devc] widths by (simp_all add: w(1) raw_bytes_def)
  have cb: "(w + 7) div 8 \<le> raw_bytes"
    by (simp add: raw_bytes_def div_le_mono)
  have mk: "(ucast ((push_bit (unat (runlength_code_width devc)) 1 :: u64) - 1) :: u32) = mask w"
    using count_mask_eq [OF w(3)] by (simp add: w(1))
  have inb: "\<forall>i\<in>set [0..<n]. (i + 1) * raw_bytes \<le> length buf"
  proof
    fix i assume "i \<in> set [0..<n]"
    then have "i + 1 \<le> n" by simp
    then have "(i + 1) * raw_bytes \<le> n * raw_bytes" by (rule mult_le_mono1)
    then show "(i + 1) * raw_bytes \<le> length buf" by (simp only: buf(2) raw_bytes_def)
  qed
  have "first_pass devc =
      count_repeats buf (raw_data_width_bytes devc) (runlength_code_width_bytes devc)
        (mask w) (delay_value devc) [0..<n] ([], 0, 0)"
    unfolding first_pass_def mk by (simp add: buf(1) n)
  then have fp: "first_pass devc = Some (reps, delay, samples)"
    using count_repeats_sum [OF w(2,3) wd(1,2) cb inb, of "delay_value devc" "[]" 0 0]
    by (simp add: filter_less_upt repeat_sum_def reps_def delay_def samples_def k_def)
  have len: "length reps = n"
    by (simp add: reps_def)
  have each: "1 \<le> unat r \<and> unat r \<le> 2 ^ w" if "r \<in> set reps" for r
  proof -
    from that obtain i where r: "r = word_of_nat (sample_repeat w (raw_sample buf raw_bytes i))"
      by (auto simp: reps_def)
    let ?x = "sample_repeat w (raw_sample buf raw_bytes i)"
    have b: "1 \<le> ?x" "?x \<le> 2 ^ w"
      by (rule sample_repeat_bounds)+
    have "(2::nat) ^ w < 2 ^ 32"
      using w(3) by (rule power_strict_increasing) simp
    with b(2) have "?x < 2 ^ 32"
      by simp
    then have "unat (word_of_nat ?x :: u32) = ?x"
      by (simp add: unat_of_nat)
    with b r show ?thesis
      by simp
  qed
  have kn: "k \<le> n"
    by (simp add: k_def)
  have sn: "repeat_sum w raw_bytes buf n \<le> n * 2 ^ w"
    by (rule repeat_sum_bounds)
  have sk: "repeat_sum w raw_bytes buf k \<le> repeat_sum w raw_bytes buf n"
    using kn by (rule repeat_sum_mono)
  have us: "unat samples = repeat_sum w raw_bytes buf n"
    unfolding samples_def using sn sums by (intro unat_of_nat64) simp
  have ud: "unat delay = repeat_sum w raw_bytes buf k"
    unfolding delay_def using sk sn sums by (intro unat_of_nat64) simp
  have "n \<le> repeat_sum w raw_bytes buf n"
    by (rule repeat_sum_bounds)
  then have ge: "n \<le> unat samples"
    by (simp only: us)
  have le: "unat delay \<le> unat samples"
    using sk by (simp only: us ud)
  have ret: "d = delay \<and> s = samples"
    if "ipdbg_la_runlength_decode heap devc = Some (True, devc', d, s)" for devc' d s
    using that w(2)
    by (auto simp: ipdbg_la_runlength_decode_def Let_def fp w(1)
        split: option.splits if_splits Option.bind_splits)
  from fp len each ge le ret show ?thesis
    by blast
qed

theorem runlength_repeat_bounds_witness:
  "first_pass
     (ipdbg_la_dev_new\<lparr>data_width := 4, runlength_code_width := 4, limit_samples := 2,
        delay_value := 1, raw_sample_buf := Some [0x31, 0x50]\<rparr>) = Some ([2, 1], 2, 3) \<and>
   ipdbg_la_runlength_decode roomy_heap
     (ipdbg_la_dev_new\<lparr>data_width := 4, runlength_code_width := 4, limit_samples := 2,
        delay_value := 1, raw_sample_buf := Some [0x31, 0x50]\<rparr>) =
   Some (True,
     ipdbg_la_dev_new\<lparr>data_width := 4, runlength_code_width := 4, limit_samples := 2,
        delay_value := 1, raw_sample_buf := Some [0x03, 0x03, 0x05]\<rparr>, 2, 3)"
proof -
  define D where "D = ipdbg_la_dev_new\<lparr>data_width := 4, runlength_code_width := 4,
    limit_samples := 2, delay_value := 1, raw_sample_buf := Some [0x31, 0x50]\<rparr>"
  have h: "4 = unat (runlength_code_width D)" "(0::nat) < 4" "(4::nat) < 32"
    "2 = unat (limit_samples D)" "unat (data_width D) + 4 + 7 < 2 ^ 32"
    "raw_sample_buf D = Some [0x31, 0x50]"
    "length [0x31, 0x50 :: u8] = 2 * ((unat (data_width D) + 4 + 7) div 8)"
    "(2::nat) * 2 ^ 4 < 2 ^ 64"
    by (simp_all add: D_def ipdbg_la_dev_new_def)
  have fp: "first_pass D = Some ([2, 1], 2, 3)"
    unfolding D_def by (rule first_pass_nibbles)
  have u2: "[0..<2] = [0, Suc 0]"
    by (simp add: upt_conv_Cons)
  have r2: "replicate 2 x = [x, x]" for x :: u8
    by (simp add: numeral_2_eq_2)
  have ex: "expanded 4 1 1 [0x31, 0x50] [0..<2] = [0x03, 0x03, 0x05]"
    unfolding u2
    by (simp add: expanded_def sample_payload_def sample_repeat_def raw_sample_def le_nat_def r2)
  have dec: "decodable roomy_heap D [0x31, 0x50]"
    by (simp add: D_def decodable_def Let_def ipdbg_la_dev_new_def roomy_heap_def)
  have n3: "1 = (unat (data_width D) + 4 + 7) div 8" and n4: "1 = (unat (data_width D) + 7) div 8"
    by (simp_all add: D_def ipdbg_la_dev_new_def)
  from runlength_decode_spec [OF dec h(1) h(4) n3 n4] obtain d s where
    r: "ipdbg_la_runlength_decode roomy_heap D =
          Some (True, D\<lparr>raw_sample_buf := Some [0x03, 0x03, 0x05]\<rparr>, d, s)"
    unfolding ex by blast
  from runlength_repeat_bounds [OF h, of roomy_heap] obtain repeats delay samples where
    b: "first_pass D = Some (repeats, delay, samples)"
      "\<forall>devc' d s. ipdbg_la_runlength_decode roomy_heap D = Some (True, devc', d, s) \<longrightarrow>
         d = delay \<and> s = samples"
    by blast
  from b(1) fp have "delay = 2" "samples = 3"
    by simp_all
  with b(2) r have "d = 2" "s = 3"
    by blast+
  with r fp show ?thesis
    by (simp add: D_def)
qed

text \<open>
  Claim C10 as stated, for every code width above 0, fails at the code width 32: of two
  raw samples with the fields \<open>0xFFFFFFFF\<close> and 0 the first gets the repeat count 0,
  and \<open>total_samples\<close> is 1, below the 2 raw samples.
\<close>

theorem first_pass_zero_repeat:
  "first_pass
     (ipdbg_la_dev_new\<lparr>data_width := 8, runlength_code_width := 32, limit_samples := 2,
        delay_value := 1,
        raw_sample_buf := Some [0xFF, 0xFF, 0xFF, 0xFF, 0x01, 0x00, 0x00, 0x00, 0x00, 0x02]\<rparr>) =
     Some ([0, 1], 0, 1)"
proof -
  define D where "D = ipdbg_la_dev_new\<lparr>data_width := 8, runlength_code_width := 32,
    limit_samples := 2, delay_value := 1,
    raw_sample_buf := Some [0xFF, 0xFF, 0xFF, 0xFF, 0x01, 0x00, 0x00, 0x00, 0x00, 0x02]\<rparr>"
  have w: "raw_data_width_bytes D = 5" "runlength_code_width_bytes D = 4"
    by (simp_all add: D_def ipdbg_la_dev_new_def raw_data_width_bytes_def
        runlength_code_width_bytes_def host_word_size_def)
  have m: "(ucast ((push_bit (unat (runlength_code_width D)) 1 :: u64) - 1) :: u32) = 0xFFFFFFFF"
    by (simp add: D_def ipdbg_la_dev_new_def)
  have f: "raw_sample_buf D = Some [0xFF, 0xFF, 0xFF, 0xFF, 0x01, 0x00, 0x00, 0x00, 0x00, 0x02]"
    "delay_value D = 1" "unat (limit_samples D) = 2"
    by (simp_all add: D_def ipdbg_la_dev_new_def)
  have u: "[0..<2] = [0, 1]" "[0..<4] = [0, 1, 2, 3]"
    by (simp_all add: upt_conv_Cons)
  have "first_pass D = Some ([0, 1], 0, 1)"
    unfolding first_pass_def w m f u by (simp add: load_def host_word_size_def u)
  then show ?thesis
    by (simp add: D_def)
qed

subsection \<open>Receiving the samples\<close>

lemma tcp_receive_shape:
  "ipdbg_la_tcp_receive tcp bufsize = (recd, bytes, tcp1) \<Longrightarrow>
   length bytes \<le> bufsize \<and> (recd = int (length bytes) \<or> (recd = -1 \<and> bytes = []))"
  by (auto simp: ipdbg_la_tcp_receive_def data_available_def
      split: list.splits rx_event.splits prod.splits bool.splits if_splits)

lemma sint_low_diff:
  fixes b n :: u64
  assumes "unat n \<le> unat b + 2147483648" "unat b < unat n + 2147483648"
  shows "sint (ucast (b - n) :: 32 word) = int (unat b) - int (unat n)"
proof -
  have u: "uint b = int (unat b)" "uint n = int (unat n)" by simp_all
  have range: "- 2147483648 \<le> uint b - uint n" "uint b - uint n < 2147483648"
    unfolding u using assms by linarith+
  have "sint (ucast (b - n) :: 32 word) = signed_take_bit 31 (uint (ucast (b - n) :: 32 word))"
    by (simp add: sint_uint)
  also have "uint (ucast (b - n) :: 32 word) = take_bit 32 (uint (b - n))"
    by (simp add: unsigned_ucast_eq)
  also have "uint (b - n) = take_bit 64 (uint b - uint n)"
    by (simp add: uint_word_arith_bintrs)
  also have "take_bit 32 (take_bit 64 (uint b - uint n)) = take_bit 32 (uint b - uint n)"
    by simp
  also have "signed_take_bit 31 (take_bit 32 (uint b - uint n)) = signed_take_bit 31 (uint b - uint n)"
    by (simp add: signed_take_bit_take_bit)
  also have "\<dots> = uint b - uint n"
    using range by (intro signed_take_bit_int_eq_self) simp_all
  finally show ?thesis by simp
qed

lemma num_move_copied:
  assumes len: "0 < len" "len \<le> 16384"
    and nt: "unat (num_transfers devc) + 16384 < 2 ^ 64"
    and far: "unat (num_transfers devc)
                \<le> unat (limit_samples devc * ucast (raw_data_width_bytes devc)) + 2 ^ 31"
  shows "(if 0 < num_move_of devc (int len) then nat (num_move_of devc (int len)) else 0) =
         min len (unat (limit_samples devc * ucast (raw_data_width_bytes devc))
                    - unat (num_transfers devc))"
proof -
  let ?B = "limit_samples devc * ucast (raw_data_width_bytes devc)"
  let ?N = "num_transfers devc"
  have "unat (word_of_nat len :: u64) = len"
    using len by (simp add: unat_of_nat)
  then have sum: "unat (?N + word_of_nat len) = unat ?N + len"
    using len nt by (simp add: unat_add_lem [THEN iffD1])
  show ?thesis
  proof (cases "unat ?N + len \<le> unat ?B")
    case True
    then have "num_move_of devc (int len) = int len"
      by (simp add: num_move_of_def word_le_nat_alt sum)
    with True len show ?thesis by simp
  next
    case False
    then have m: "num_move_of devc (int len) = sint (ucast (?B - ?N) :: 32 word)"
      by (simp add: num_move_of_def word_le_nat_alt sum)
    define B where "B = unat ?B"
    define N where "N = unat ?N"
    have "sint (ucast (?B - ?N) :: 32 word) = int (unat ?B) - int (unat ?N)"
      using False len far by (intro sint_low_diff) simp_all
    with m have mv: "num_move_of devc (int len) = int B - int N"
      by (simp only: B_def N_def)
    have nb: "\<not> N + len \<le> B" unfolding B_def N_def by (rule False)
    have "(if 0 < int B - int N then nat (int B - int N) else 0) = min len (B - N)"
      using nb by (auto simp: min_def)
    then show ?thesis by (simp only: mv B_def N_def)
  qed
qed

lemma receive_chunk_copies:
  assumes buf: "raw_sample_buf devc = Some raw_buf"
      "length raw_buf = unat (limit_samples devc * ucast (raw_data_width_bytes devc))"
    and nt: "unat (num_transfers devc) + 16384 < 2 ^ 64"
    and far: "unat (num_transfers devc)
                \<le> unat (limit_samples devc * ucast (raw_data_width_bytes devc)) + 2 ^ 31"
  shows "receive_chunk devc raw_buf tcp =
     Some (devc\<lparr>raw_sample_buf :=
                  Some (take (unat (num_transfers devc)) raw_buf @
                        take (length raw_buf - unat (num_transfers devc))
                          (fst (snd (ipdbg_la_tcp_receive tcp 16384))) @
                        drop (unat (num_transfers devc) +
                              min (length (fst (snd (ipdbg_la_tcp_receive tcp 16384))))
                                  (length raw_buf - unat (num_transfers devc))) raw_buf),
                 num_transfers := num_transfers devc +
                    word_of_nat (length (fst (snd (ipdbg_la_tcp_receive tcp 16384))))\<rparr>,
           snd (snd (ipdbg_la_tcp_receive tcp 16384)))"
proof -
  obtain recd bytes tcp1 where r: "ipdbg_la_tcp_receive tcp 16384 = (recd, bytes, tcp1)"
    by (metis prod_cases3)
  from tcp_receive_shape [OF r] have
    sh: "length bytes \<le> 16384" "recd = int (length bytes) \<or> (recd = -1 \<and> bytes = [])"
    by simp_all
  let ?nt = "unat (num_transfers devc)"
  show ?thesis
  proof (cases "0 < recd")
    case False
    with sh have e: "bytes = []" by auto
    have "devc\<lparr>raw_sample_buf := Some raw_buf, num_transfers := num_transfers devc\<rparr> = devc"
      using buf by simp
    with False e show ?thesis by (simp add: receive_chunk_def r Let_def)
  next
    case True
    with sh have rb: "recd = int (length bytes)" "0 < length bytes" by auto
    let ?k = "min (length bytes) (length raw_buf - ?nt)"
    have k: "(if 0 < num_move_of devc (int (length bytes))
              then nat (num_move_of devc (int (length bytes))) else 0) = ?k"
      using num_move_copied [OF rb(2) sh(1) nt far] buf by simp
    show ?thesis
    proof (cases "0 < num_move_of devc (int (length bytes))")
      case False
      with k have k0: "?k = 0" by simp
      then have "length raw_buf - ?nt = 0" using rb by (simp add: min_def split: if_splits)
      with False True rb show ?thesis
        by (simp add: receive_chunk_def r Let_def)
    next
      case pos: True
      with k have kk: "nat (num_move_of devc (int (length bytes))) = ?k" by simp
      have "0 < ?k" using pos kk by linarith
      then have "?nt + ?k \<le> length raw_buf" by arith
      then have "memcpy_into raw_buf ?nt bytes ?k =
          Some (take ?nt raw_buf @ take ?k bytes @ drop (?nt + ?k) raw_buf)"
        by (simp add: memcpy_into_def)
      moreover have "take ?k bytes = take (length raw_buf - ?nt) bytes"
        by (simp add: min_def)
      ultimately show ?thesis
        using True rb pos kk by (simp add: receive_chunk_def r Let_def)
    qed
  qed
qed


lemma raw_width_buf [simp]:
  "raw_data_width_bytes (devc\<lparr>raw_sample_buf := b\<rparr>) = raw_data_width_bytes devc"
  by (simp add: raw_data_width_bytes_def)

lemma receive_data_cases:
  assumes "priv sdi = Some devc"
    "(case raw_sample_buf devc of
        None \<Rightarrow> g_try_malloc heap (limit_samples devc * ucast (raw_data_width_bytes devc))
      | Some b \<Rightarrow> Some b) = Some raw_buf"
    "length raw_buf = unat (limit_samples devc * ucast (raw_data_width_bytes devc))"
    "unat (num_transfers devc) + 16384 < 2 ^ 64"
    "unat (num_transfers devc) \<le> length raw_buf + 2 ^ 31"
  shows "ipdbg_la_receive_data heap (Some sdi) =
     (if unat (num_transfers devc)
           < unat (limit_samples_max devc * ucast (raw_data_width_bytes devc))
      then Some (True, Some (sdi\<lparr>priv := Some (devc\<lparr>raw_sample_buf :=
                  Some (take (unat (num_transfers devc)) raw_buf @
                        take (length raw_buf - unat (num_transfers devc))
                          (fst (snd (ipdbg_la_tcp_receive (conn sdi) 16384))) @
                        drop (unat (num_transfers devc) +
                              min (length (fst (snd (ipdbg_la_tcp_receive (conn sdi) 16384))))
                                  (length raw_buf - unat (num_transfers devc))) raw_buf),
                 num_transfers := num_transfers devc +
                    word_of_nat (length (fst (snd (ipdbg_la_tcp_receive (conn sdi) 16384))))\<rparr>),
              conn := snd (snd (ipdbg_la_tcp_receive (conn sdi) 16384))\<rparr>))
      else map_option (\<lambda>r. (fst r, Some (snd r)))
             (deliver heap sdi (devc\<lparr>raw_sample_buf := Some raw_buf\<rparr>)))"
proof -
  define devc1 where "devc1 = devc\<lparr>raw_sample_buf := Some raw_buf\<rparr>"
  have f: "raw_sample_buf devc1 = Some raw_buf" "limit_samples devc1 = limit_samples devc"
    "limit_samples_max devc1 = limit_samples_max devc" "num_transfers devc1 = num_transfers devc"
    "raw_data_width_bytes devc1 = raw_data_width_bytes devc"
    by (simp_all add: devc1_def)
  have len: "length raw_buf = unat (limit_samples devc1 * ucast (raw_data_width_bytes devc1))"
    using assms(3) by (simp only: f)
  have nt: "unat (num_transfers devc1) + 16384 < 2 ^ 64"
    using assms(4) by (simp only: f)
  have far: "unat (num_transfers devc1)
      \<le> unat (limit_samples devc1 * ucast (raw_data_width_bytes devc1)) + 2 ^ 31"
    using assms(3,5) by (simp only: f)
  note rc = receive_chunk_copies [OF f(1) len nt far, of "conn sdi", unfolded f(4)]
  have upd: "devc1\<lparr>raw_sample_buf := b, num_transfers := k\<rparr> =
             devc\<lparr>raw_sample_buf := b, num_transfers := k\<rparr>" for b k
    by (simp add: devc1_def)
  have rd: "ipdbg_la_receive_data heap (Some sdi) =
      (if accumulating devc1 then do {
         (devc2, tcp1) \<leftarrow> receive_chunk devc1 raw_buf (conn sdi);
         Some (True, Some (sdi\<lparr>priv := Some devc2, conn := tcp1\<rparr>)) }
       else do {
         (ok, sdi1) \<leftarrow> deliver heap sdi devc1;
         Some (ok, Some sdi1) })"
    by (simp add: ipdbg_la_receive_data_def assms(1,2) devc1_def Let_def)
  show ?thesis
  proof (cases "accumulating devc1")
    case True
    then have "unat (num_transfers devc)
        < unat (limit_samples_max devc * ucast (raw_data_width_bytes devc))"
      by (simp add: accumulating_def word_less_nat_alt f)
    with True show ?thesis
      by (simp add: rd rc upd)
  next
    case False
    then have "\<not> unat (num_transfers devc)
        < unat (limit_samples_max devc * ucast (raw_data_width_bytes devc))"
      by (simp add: accumulating_def word_less_nat_alt f)
    with False show ?thesis
      by (cases "deliver heap sdi devc1") (auto simp: rd devc1_def)
  qed
qed

text \<open>
  Claim C5, amended. With the acquisition buffer present, or allocated by this call, of
  \<open>limit_samples * raw_data_width_bytes\<close> bytes (the budget), \<open>ipdbg_la_receive_data\<close>
  reads from the socket exactly while \<open>num_transfers\<close> is below \<open>limit_samples_max *
  raw_data_width_bytes\<close>, and decodes and delivers otherwise. A read copies its first
  bytes to the buffer at offset \<open>num_transfers\<close>, at most as many as the budget less
  \<open>num_transfers\<close>; the other bytes of the read are dropped, the rest of the buffer is
  unchanged, and \<open>num_transfers\<close> grows by the whole length of the read. This is for
  \<open>num_transfers\<close> not wrapping in 64 bits and at most \<open>2 ^ 31\<close> above the budget, where
  the cast of the difference to \<open>int\<close> is not positive.
\<close>

theorem receive_data_budget:
  assumes "priv sdi = Some devc"
    "(case raw_sample_buf devc of
        None \<Rightarrow> g_try_malloc heap (limit_samples devc * ucast (raw_data_width_bytes devc))
      | Some b \<Rightarrow> Some b) = Some raw_buf"
    "length raw_buf = unat (limit_samples devc * ucast (raw_data_width_bytes devc))"
    "unat (num_transfers devc) + 16384 < 2 ^ 64"
    "unat (num_transfers devc) \<le> length raw_buf + 2 ^ 31"
  shows "ipdbg_la_receive_data heap (Some sdi) =
     (if unat (num_transfers devc)
           < unat (limit_samples_max devc * ucast (raw_data_width_bytes devc))
      then Some (True, Some (sdi\<lparr>priv := Some (devc\<lparr>raw_sample_buf :=
                  Some (take (unat (num_transfers devc)) raw_buf @
                        take (length raw_buf - unat (num_transfers devc))
                          (fst (snd (ipdbg_la_tcp_receive (conn sdi) 16384))) @
                        drop (unat (num_transfers devc) +
                              min (length (fst (snd (ipdbg_la_tcp_receive (conn sdi) 16384))))
                                  (length raw_buf - unat (num_transfers devc))) raw_buf),
                 num_transfers := num_transfers devc +
                    word_of_nat (length (fst (snd (ipdbg_la_tcp_receive (conn sdi) 16384))))\<rparr>),
              conn := snd (snd (ipdbg_la_tcp_receive (conn sdi) 16384))\<rparr>))
      else map_option (\<lambda>r. (fst r, Some (snd r)))
             (deliver heap sdi (devc\<lparr>raw_sample_buf := Some raw_buf\<rparr>)))"
  using assms by (rule receive_data_cases)

theorem receive_data_budget_witness:
  "ipdbg_la_receive_data roomy_heap
     (Some \<lparr>priv = Some (ipdbg_la_dev_new\<lparr>data_width := 8, limit_samples := 2,
               limit_samples_max := 2, num_transfers := 1, raw_sample_buf := Some [0xAB, 0x00]\<rparr>),
            conn = quiet_socket\<lparr>rx := [Rx_data [0xCD, 0xEF]]\<rparr>,
            session_feed = [], session_source = True\<rparr>) =
   Some (True,
     Some \<lparr>priv = Some (ipdbg_la_dev_new\<lparr>data_width := 8, limit_samples := 2,
               limit_samples_max := 2, num_transfers := 3, raw_sample_buf := Some [0xAB, 0xCD]\<rparr>),
            conn = quiet_socket, session_feed = [], session_source = True\<rparr>)"
proof -
  define D where "D = ipdbg_la_dev_new\<lparr>data_width := 8, limit_samples := 2,
       limit_samples_max := 2, num_transfers := 1, raw_sample_buf := Some [0xAB, 0x00]\<rparr>"
  define S where "S = \<lparr>priv = Some D, conn = quiet_socket\<lparr>rx := [Rx_data [0xCD, 0xEF]]\<rparr>,
            session_feed = [], session_source = True\<rparr>"
  have f: "data_width D = 8" "runlength_code_width D = 0" "limit_samples D = 2"
    "limit_samples_max D = 2" "num_transfers D = 1" "raw_sample_buf D = Some [0xAB, 0x00]"
    by (simp_all add: D_def ipdbg_la_dev_new_def)
  have w: "raw_data_width_bytes D = 1"
    by (simp add: raw_data_width_bytes_def f host_word_size_def)
  have r: "ipdbg_la_tcp_receive (conn S) 16384 = (2, [0xCD, 0xEF], quiet_socket)"
    by (simp add: S_def ipdbg_la_tcp_receive_def data_available_def quiet_socket_def)
  have a1: "priv S = Some D"
    by (simp add: S_def)
  have a2: "(case raw_sample_buf D of
        None \<Rightarrow> g_try_malloc roomy_heap (limit_samples D * ucast (raw_data_width_bytes D))
      | Some b \<Rightarrow> Some b) = Some [0xAB, 0x00]"
    by (simp add: f)
  have a3: "length [0xAB, 0x00 :: u8] = unat (limit_samples D * ucast (raw_data_width_bytes D))"
    by (simp add: w f)
  have a4: "unat (num_transfers D) + 16384 < 2 ^ 64"
    by (simp add: f)
  have a5: "unat (num_transfers D) \<le> length [0xAB, 0x00 :: u8] + 2 ^ 31"
    by (simp add: f)
  have lt: "unat (num_transfers D) < unat (limit_samples_max D * ucast (raw_data_width_bytes D))"
    by (simp add: w f)
  have n: "unat (num_transfers D) = 1"
    by (simp add: f)
  have "ipdbg_la_receive_data roomy_heap (Some S) =
      Some (True, Some (S\<lparr>priv := Some (D\<lparr>raw_sample_buf := Some [0xAB, 0xCD],
              num_transfers := 3\<rparr>), conn := quiet_socket\<rparr>))"
    unfolding receive_data_budget [OF a1 a2 a3 a4 a5] r
    using lt by (simp add: n f)
  then show ?thesis
    by (simp add: S_def D_def)
qed

text \<open>
  Claim C5 as stated says that the function turns to decoding when \<open>num_transfers\<close>
  reaches \<open>limit_samples * raw_data_width_bytes\<close>. With \<open>limit_samples = 1\<close> and
  \<open>limit_samples_max = 2\<close> of one byte each, and \<open>num_transfers = 1\<close>, the count has
  reached that budget, and the function still reads: it takes the pending byte, copies
  nothing, counts it, and delivers no packet.
\<close>

lemma receive_data_reads_at_budget:
  "unat (num_transfers (ipdbg_la_dev_new\<lparr>data_width := 8, limit_samples := 1,
       limit_samples_max := 2, num_transfers := 1, raw_sample_buf := Some [0xAB]\<rparr>)) =
   unat (limit_samples (ipdbg_la_dev_new\<lparr>data_width := 8, limit_samples := 1,
       limit_samples_max := 2, num_transfers := 1, raw_sample_buf := Some [0xAB]\<rparr>) *
     ucast (raw_data_width_bytes (ipdbg_la_dev_new\<lparr>data_width := 8, limit_samples := 1,
       limit_samples_max := 2, num_transfers := 1, raw_sample_buf := Some [0xAB]\<rparr>))) \<and>
   ipdbg_la_receive_data roomy_heap
     (Some \<lparr>priv = Some (ipdbg_la_dev_new\<lparr>data_width := 8, limit_samples := 1,
               limit_samples_max := 2, num_transfers := 1, raw_sample_buf := Some [0xAB]\<rparr>),
            conn = quiet_socket\<lparr>rx := [Rx_data [0xCD]]\<rparr>,
            session_feed = [], session_source = True\<rparr>) =
   Some (True,
     Some \<lparr>priv = Some (ipdbg_la_dev_new\<lparr>data_width := 8, limit_samples := 1,
               limit_samples_max := 2, num_transfers := 2, raw_sample_buf := Some [0xAB]\<rparr>),
            conn = quiet_socket, session_feed = [], session_source = True\<rparr>)"
proof -
  define D where "D = ipdbg_la_dev_new\<lparr>data_width := 8, limit_samples := 1,
       limit_samples_max := 2, num_transfers := 1, raw_sample_buf := Some [0xAB]\<rparr>"
  have f: "data_width D = 8" "runlength_code_width D = 0" "limit_samples D = 1"
    "limit_samples_max D = 2" "num_transfers D = 1" "raw_sample_buf D = Some [0xAB]"
    by (simp_all add: D_def ipdbg_la_dev_new_def)
  have w: "raw_data_width_bytes D = 1"
    by (simp add: raw_data_width_bytes_def f host_word_size_def)
  have r: "ipdbg_la_tcp_receive (quiet_socket\<lparr>rx := [Rx_data [0xCD]]\<rparr>) 16384 =
      (1, [0xCD], quiet_socket)"
    by (simp add: ipdbg_la_tcp_receive_def data_available_def quiet_socket_def)
  have a: "accumulating D"
    by (simp add: accumulating_def w f word_less_nat_alt)
  have m: "num_move_of D 1 = 0"
    by (simp add: num_move_of_def w f word_le_nat_alt)
  have c: "receive_chunk D [0xAB] (quiet_socket\<lparr>rx := [Rx_data [0xCD]]\<rparr>) =
      Some (D\<lparr>num_transfers := 2\<rparr>, quiet_socket)"
    by (simp add: receive_chunk_def r Let_def m f)
  have u: "unat (num_transfers D) = unat (limit_samples D * ucast (raw_data_width_bytes D))"
    by (simp add: w f)
  have d: "D\<lparr>raw_sample_buf := Some [0xAB]\<rparr> = D" by (simp add: D_def)
  have "ipdbg_la_receive_data roomy_heap
     (Some \<lparr>priv = Some D, conn = quiet_socket\<lparr>rx := [Rx_data [0xCD]]\<rparr>,
            session_feed = [], session_source = True\<rparr>) =
   Some (True, Some \<lparr>priv = Some (D\<lparr>num_transfers := 2\<rparr>),
            conn = quiet_socket, session_feed = [], session_source = True\<rparr>)"
    using a c by (simp add: ipdbg_la_receive_data_def f d)
  with u show ?thesis by (simp add: D_def)
qed

end
